theory Spec2Isabelle
  imports Main "HOL-Library.Multiset"
begin

section \<open>Values and exceptions of the Python program\<close>

text \<open>
  The script \<^verbatim>\<open>script.py\<close> receives the day's puzzle as the value decoded from a JSON
  response (\<^verbatim>\<open>response.json()\<close>), so \<^verbatim>\<open>data\<close> is a tree of dictionaries, lists, strings,
  integers, booleans and \<^verbatim>\<open>None\<close>. A dictionary is an association list read with
  \<open>map_of\<close>. JSON numbers are integers here (the flag \<^verbatim>\<open>is_pangram\<close> is 0 or 1);
  floating-point numbers are outside the model. A Python string is a list of characters;
  a character is a \<open>char\<close>, which covers the code points 0 to 255 (puzzle words are
  lowercase ASCII letters).
\<close>

datatype json =
    JNull
  | JBool bool
  | JInt int
  | JStr string
  | JList "json list"
  | JDict "(string \<times> json) list"

text \<open>
  Every \<^verbatim>\<open>raise\<close> that the modelled code can reach is a value of this type.
  \<open>PlaywrightError\<close> stands for the exceptions of the browser driver, all of them
  subclasses of \<^verbatim>\<open>Exception\<close>.
\<close>

datatype error = KeyError | TypeError | AttributeError | IndexError | PlaywrightError

subsection \<open>The built-in operations the code applies to \<^verbatim>\<open>data\<close>\<close>

text \<open>Truth value of an object, as tested by \<^verbatim>\<open>not data\<close>.\<close>

fun truthy :: "json \<Rightarrow> bool" where
  "truthy JNull = False"
| "truthy (JBool b) = b"
| "truthy (JInt n) = (n \<noteq> 0)"
| "truthy (JStr s) = (s \<noteq> [])"
| "truthy (JList xs) = (xs \<noteq> [])"
| "truthy (JDict kvs) = (kvs \<noteq> [])"

text \<open>\<^verbatim>\<open>k in s\<close> for two strings: \<open>k\<close> occurs in \<open>s\<close> as a contiguous block.\<close>

fun is_prefix :: "string \<Rightarrow> string \<Rightarrow> bool" where
  "is_prefix [] s = True"
| "is_prefix (c # cs) [] = False"
| "is_prefix (c # cs) (d # ds) = (c = d \<and> is_prefix cs ds)"

fun is_substring :: "string \<Rightarrow> string \<Rightarrow> bool" where
  "is_substring k [] = (k = [])"
| "is_substring k (d # ds) = (is_prefix k (d # ds) \<or> is_substring k ds)"

text \<open>
  \<^verbatim>\<open>k in x\<close> for a string \<open>k\<close>: key membership in a dictionary, element membership in a
  list, substring test in a string, \<^verbatim>\<open>TypeError\<close> for a value that is not a container.
\<close>

fun py_contains :: "string \<Rightarrow> json \<Rightarrow> error + bool" where
  "py_contains k (JDict kvs) = Inr (k \<in> set (map fst kvs))"
| "py_contains k (JList xs) = Inr (JStr k \<in> set xs)"
| "py_contains k (JStr s) = Inr (is_substring k s)"
| "py_contains k JNull = Inl TypeError"
| "py_contains k (JBool b) = Inl TypeError"
| "py_contains k (JInt n) = Inl TypeError"

text \<open>
  \<^verbatim>\<open>x[k]\<close> for a string \<open>k\<close>: the value of the key, \<^verbatim>\<open>KeyError\<close> when a dictionary
  lacks it, \<^verbatim>\<open>TypeError\<close> for every other object (lists and strings take integer
  indices, the rest is not subscriptable).
\<close>

fun py_getitem :: "json \<Rightarrow> string \<Rightarrow> error + json" where
  "py_getitem (JDict kvs) k = (case map_of kvs k of None \<Rightarrow> Inl KeyError | Some v \<Rightarrow> Inr v)"
| "py_getitem (JList xs) k = Inl TypeError"
| "py_getitem (JStr s) k = Inl TypeError"
| "py_getitem JNull k = Inl TypeError"
| "py_getitem (JBool b) k = Inl TypeError"
| "py_getitem (JInt n) k = Inl TypeError"

text \<open>\<^verbatim>\<open>x.get(k, d)\<close>: only a dictionary has the method.\<close>

fun py_get :: "json \<Rightarrow> string \<Rightarrow> json \<Rightarrow> error + json" where
  "py_get (JDict kvs) k d = Inr (case map_of kvs k of None \<Rightarrow> d | Some v \<Rightarrow> v)"
| "py_get (JList xs) k d = Inl AttributeError"
| "py_get (JStr s) k d = Inl AttributeError"
| "py_get JNull k d = Inl AttributeError"
| "py_get (JBool b) k d = Inl AttributeError"
| "py_get (JInt n) k d = Inl AttributeError"

text \<open>The keys of a dictionary, each once, in the order of their first binding.\<close>

fun dict_keys :: "(string \<times> json) list \<Rightarrow> string list" where
  "dict_keys [] = []"
| "dict_keys ((k, v) # kvs) = k # filter (\<lambda>k'. k' \<noteq> k) (dict_keys kvs)"

text \<open>
  The elements that \<^verbatim>\<open>for item in x\<close> visits: the elements of a list, the one-character
  strings of a string, the keys of a dictionary; \<^verbatim>\<open>TypeError\<close> otherwise.
\<close>

fun py_iter :: "json \<Rightarrow> error + json list" where
  "py_iter (JList xs) = Inr xs"
| "py_iter (JStr s) = Inr (map (\<lambda>c. JStr [c]) s)"
| "py_iter (JDict kvs) = Inr (map JStr (dict_keys kvs))"
| "py_iter JNull = Inl TypeError"
| "py_iter (JBool b) = Inl TypeError"
| "py_iter (JInt n) = Inl TypeError"

text \<open>\<^verbatim>\<open>len(x)\<close>.\<close>

fun py_len :: "json \<Rightarrow> error + nat" where
  "py_len (JStr s) = Inr (length s)"
| "py_len (JList xs) = Inr (length xs)"
| "py_len (JDict kvs) = Inr (length (dict_keys kvs))"
| "py_len JNull = Inl TypeError"
| "py_len (JBool b) = Inl TypeError"
| "py_len (JInt n) = Inl TypeError"

text \<open>
  \<^verbatim>\<open>len(set(x))\<close>. The set of a string holds its distinct characters. The set of a list
  needs hashable elements (a list or a dictionary among them raises \<^verbatim>\<open>TypeError\<close>) and
  identifies \<^verbatim>\<open>True\<close> with 1 and \<^verbatim>\<open>False\<close> with 0. The set of a dictionary holds its
  keys.
\<close>

fun unhashable :: "json \<Rightarrow> bool" where
  "unhashable (JList xs) = True"
| "unhashable (JDict kvs) = True"
| "unhashable v = False"

fun hash_key :: "json \<Rightarrow> json" where
  "hash_key (JBool b) = JInt (if b then 1 else 0)"
| "hash_key v = v"

fun py_len_set :: "json \<Rightarrow> error + nat" where
  "py_len_set (JStr s) = Inr (length (remdups s))"
| "py_len_set (JList xs) =
     (if list_ex unhashable xs then Inl TypeError
      else Inr (length (remdups (map hash_key xs))))"
| "py_len_set (JDict kvs) = Inr (length (dict_keys kvs))"
| "py_len_set JNull = Inl TypeError"
| "py_len_set (JBool b) = Inl TypeError"
| "py_len_set (JInt n) = Inl TypeError"

text \<open>\<^verbatim>\<open>x == 1\<close>: true for the integer 1 and for \<^verbatim>\<open>True\<close>.\<close>

fun py_eq_one :: "json \<Rightarrow> bool" where
  "py_eq_one (JInt n) = (n = 1)"
| "py_eq_one (JBool b) = b"
| "py_eq_one v = False"

section \<open>Scoring\<close>

text \<open>
  \<^verbatim>\<open>score_valid_word\<close> (script.py, lines 43 to 55): a word of length 4 scores 1 and
  returns at once; every other word scores its length, plus 7 when it has exactly seven
  distinct characters.
\<close>

definition score_valid_word :: "json \<Rightarrow> error + int" where
  "score_valid_word w =
     (case py_len w of
        Inl e \<Rightarrow> Inl e
      | Inr n \<Rightarrow>
          if n = 4 then Inr 1
          else (case py_len_set w of
                  Inl e \<Rightarrow> Inl e
                | Inr d \<Rightarrow> Inr (if d = 7 then int n + 7 else int n)))"

section \<open>Prioritizing the words\<close>

text \<open>
  One entry of the local list \<^verbatim>\<open>scored_words\<close>: the dictionary
  \<^verbatim>\<open>{"word": word, "score": score, "is_pangram": is_pangram}\<close>.
\<close>

record scored_word =
  word :: json
  score :: int
  is_pangram :: bool

text \<open>
  The body of the loop over \<^verbatim>\<open>data["words"]\<close> (lines 68 to 72). The flag of the data
  source and the seven-letter test are joined by \<^verbatim>\<open>or\<close>, which does not evaluate its
  second operand when the first is true.
\<close>

definition score_item :: "json \<Rightarrow> error + scored_word" where
  "score_item item =
     (case py_getitem item ''word'' of
        Inl e \<Rightarrow> Inl e
      | Inr w \<Rightarrow>
          (case score_valid_word w of
             Inl e \<Rightarrow> Inl e
           | Inr sc \<Rightarrow>
               (case py_get item ''is_pangram'' (JInt 0) of
                  Inl e \<Rightarrow> Inl e
                | Inr flag \<Rightarrow>
                    if py_eq_one flag
                    then Inr \<lparr>word = w, score = sc, is_pangram = True\<rparr>
                    else (case py_len_set w of
                            Inl e \<Rightarrow> Inl e
                          | Inr d \<Rightarrow> Inr \<lparr>word = w, score = sc, is_pangram = (d = 7)\<rparr>))))"

text \<open>The loop of lines 67 to 72, appending to the list built so far.\<close>

fun build_scored_words :: "json list \<Rightarrow> scored_word list \<Rightarrow> error + scored_word list" where
  "build_scored_words [] acc = Inr acc"
| "build_scored_words (item # items) acc =
     (case score_item item of
        Inl e \<Rightarrow> Inl e
      | Inr sw \<Rightarrow> build_scored_words items (acc @ [sw]))"

text \<open>The value of \<^verbatim>\<open>scored_words\<close> when the loop has ended (lines 66 to 72).\<close>

definition scored_words_of :: "json \<Rightarrow> error + scored_word list" where
  "scored_words_of data =
     (case py_getitem data ''words'' of
        Inl e \<Rightarrow> Inl e
      | Inr ws \<Rightarrow>
          (case py_iter ws of
             Inl e \<Rightarrow> Inl e
           | Inr items \<Rightarrow> build_scored_words items []))"

text \<open>
  \<^verbatim>\<open>scored_words.sort(key=lambda x: x["score"], reverse=True)\<close>: Python's sort is
  stable, also with \<^verbatim>\<open>reverse=True\<close>, where entries of equal key keep their original
  order. That is the stable sort by the negated score.
\<close>

definition py_sort_desc :: "scored_word list \<Rightarrow> scored_word list" where
  "py_sort_desc xs = sort_key (\<lambda>x. - score x) xs"

text \<open>
  The scan \<^verbatim>\<open>for i, item in enumerate(scored_words)\<close> of lines 80 and 81: the index at
  which the branch is taken, counting from \<open>i\<close>.
\<close>

fun first_non_pangram :: "nat \<Rightarrow> scored_word list \<Rightarrow> nat option" where
  "first_non_pangram i [] = None"
| "first_non_pangram i (item # items) =
     (if \<not> is_pangram item then Some i else first_non_pangram (Suc i) items)"

text \<open>\<^verbatim>\<open>xs.pop(i)\<close> for \<open>i \<ge> 0\<close>: the element and the list without it.\<close>

definition py_pop :: "nat \<Rightarrow> 'a list \<Rightarrow> error + 'a \<times> 'a list" where
  "py_pop i xs =
     (if i < length xs then Inr (xs ! i, take i xs @ drop (Suc i) xs) else Inl IndexError)"

text \<open>Lines 78 to 85: the sorted list after the pangram at its head has been displaced.\<close>

definition demote_leading_pangram :: "scored_word list \<Rightarrow> error + scored_word list" where
  "demote_leading_pangram xs =
     (case xs of
        [] \<Rightarrow> Inr xs
      | leader # below \<Rightarrow>
          if is_pangram leader then
            (case first_non_pangram 0 xs of
               None \<Rightarrow> Inr xs
             | Some i \<Rightarrow>
                 (case py_pop i xs of
                    Inl e \<Rightarrow> Inl e
                  | Inr (non_pangram, remaining) \<Rightarrow> Inr (non_pangram # remaining)))
          else Inr xs)"

text \<open>\<^verbatim>\<open>get_prioritized_words\<close> (lines 57 to 87).\<close>

definition get_prioritized_words :: "json \<Rightarrow> error + json list" where
  "get_prioritized_words data =
     (if \<not> truthy data then Inr []
      else
        (case py_contains ''words'' data of
           Inl e \<Rightarrow> Inl e
         | Inr present \<Rightarrow>
             if \<not> present then Inr []
             else
               (case scored_words_of data of
                  Inl e \<Rightarrow> Inl e
                | Inr scored \<Rightarrow>
                    (case demote_leading_pangram (py_sort_desc scored) of
                       Inl e \<Rightarrow> Inl e
                     | Inr final \<Rightarrow> Inr (map word final)))))"

subsection \<open>The same function with the memory it writes\<close>

text \<open>
  \<^verbatim>\<open>append\<close>, \<^verbatim>\<open>sort\<close>, \<^verbatim>\<open>pop\<close> and \<^verbatim>\<open>insert\<close> change a list in place. Here the
  memory of a call is explicit: the object the caller passed as \<^verbatim>\<open>data\<close>, and the list
  bound to the local name \<^verbatim>\<open>scored_words\<close>, which is left as it was found when the call
  begins and is only reset by the assignment of line 66.
\<close>

record memory =
  caller_data :: json
  scored_words :: "scored_word list"

fun append_scored_words :: "json list \<Rightarrow> memory \<Rightarrow> (error + unit) \<times> memory" where
  "append_scored_words [] m = (Inr (), m)"
| "append_scored_words (item # items) m =
     (case score_item item of
        Inl e \<Rightarrow> (Inl e, m)
      | Inr sw \<Rightarrow> append_scored_words items (m\<lparr>scored_words := scored_words m @ [sw]\<rparr>))"

definition demote_in_place :: "memory \<Rightarrow> (error + unit) \<times> memory" where
  "demote_in_place m =
     (case scored_words m of
        [] \<Rightarrow> (Inr (), m)
      | leader # below \<Rightarrow>
          if is_pangram leader then
            (case first_non_pangram 0 (scored_words m) of
               None \<Rightarrow> (Inr (), m)
             | Some i \<Rightarrow>
                 (case py_pop i (scored_words m) of
                    Inl e \<Rightarrow> (Inl e, m)
                  | Inr (non_pangram, remaining) \<Rightarrow>
                      (Inr (), m\<lparr>scored_words := non_pangram # remaining\<rparr>)))
          else (Inr (), m))"

definition get_prioritized_words_call :: "memory \<Rightarrow> (error + json list) \<times> memory" where
  "get_prioritized_words_call m =
     (if \<not> truthy (caller_data m) then (Inr [], m)
      else
        (case py_contains ''words'' (caller_data m) of
           Inl e \<Rightarrow> (Inl e, m)
         | Inr present \<Rightarrow>
             if \<not> present then (Inr [], m)
             else
               (let m1 = m\<lparr>scored_words := []\<rparr> in
                case py_getitem (caller_data m1) ''words'' of
                  Inl e \<Rightarrow> (Inl e, m1)
                | Inr ws \<Rightarrow>
                    (case py_iter ws of
                       Inl e \<Rightarrow> (Inl e, m1)
                     | Inr items \<Rightarrow>
                         (case append_scored_words items m1 of
                            (Inl e, m2) \<Rightarrow> (Inl e, m2)
                          | (Inr u, m2) \<Rightarrow>
                              (let m3 = m2\<lparr>scored_words := py_sort_desc (scored_words m2)\<rparr> in
                               case demote_in_place m3 of
                                 (Inl e, m4) \<Rightarrow> (Inl e, m4)
                               | (Inr u, m4) \<Rightarrow> (Inr (map word (scored_words m4)), m4)))))))"

subsection \<open>Example inputs\<close>

definition entry :: "string \<Rightarrow> int \<Rightarrow> json" where
  "entry w flag = JDict [(''word'', JStr w), (''is_pangram'', JInt flag)]"

definition todays_puzzle :: json where
  "todays_puzzle =
     JDict [(''puzzle'', JDict [(''date'', JStr ''2024-01-01''), (''letters'', JStr ''e'')]),
            (''words'', JList [entry ''then'' 0, entry ''gentle'' 1, entry ''lengthy'' 1,
                               entry ''length'' 0, entry ''teeth'' 0, entry ''tenth'' 0])]"

definition pangrams_only :: json where
  "pangrams_only = JDict [(''words'', JList [entry ''gentle'' 1, entry ''lengthy'' 0])]"

definition entry_without_word :: json where
  "entry_without_word =
     JDict [(''words'', JList [entry ''then'' 0, JDict [(''is_pangram'', JInt 0)]])]"

text \<open>The entries that the loop of lines 67 to 72 builds from \<open>todays_puzzle\<close>.\<close>

definition todays_scored_words :: "scored_word list" where
  "todays_scored_words =
     [\<lparr>word = JStr ''then'', score = 1, is_pangram = False\<rparr>,
      \<lparr>word = JStr ''gentle'', score = 6, is_pangram = True\<rparr>,
      \<lparr>word = JStr ''lengthy'', score = 14, is_pangram = True\<rparr>,
      \<lparr>word = JStr ''length'', score = 6, is_pangram = False\<rparr>,
      \<lparr>word = JStr ''teeth'', score = 5, is_pangram = False\<rparr>,
      \<lparr>word = JStr ''tenth'', score = 5, is_pangram = False\<rparr>]"

definition flagged_only :: json where
  "flagged_only = JDict [(''words'', JList [entry ''gentle'' 1])]"

text \<open>
  An entry of the word list is well formed when it is a dictionary whose key
  \<^verbatim>\<open>word\<close> holds a string.
\<close>

definition well_formed_entry :: "json \<Rightarrow> bool" where
  "well_formed_entry it =
     (case it of
        JDict kvs \<Rightarrow> (case map_of kvs ''word'' of Some (JStr w) \<Rightarrow> True | _ \<Rightarrow> False)
      | _ \<Rightarrow> False)"

text \<open>
  A memory in which the name \<^verbatim>\<open>scored_words\<close> still refers to a list left by some
  earlier computation.
\<close>

definition stale_memory :: memory where
  "stale_memory =
     \<lparr>caller_data = todays_puzzle,
      scored_words = [\<lparr>word = JStr ''stale'', score = 5, is_pangram = False\<rparr>]\<rparr>"

section \<open>Playing the words in the browser\<close>

text \<open>
  \<^verbatim>\<open>run_browser_automation\<close> drives a page of the Playwright library. The page, its
  context and the browser are the environment: a state of some type \<open>'s\<close> and, for
  every call the code makes, a function that returns the call's result (\<open>Inl\<close> when the
  call raises) and the next state. The launch of the browser (lines 91 to 112) is not
  part of the model, which starts with the page at hand. Waiting (\<^verbatim>\<open>time.sleep\<close>)
  changes nothing but the clock and is recorded as an event; the durations, some of them
  random, are not modelled.
\<close>

record 's driver =
  goto :: "'s \<Rightarrow> (error + unit) \<times> 's"
  wait_for_play_button :: "'s \<Rightarrow> (error + unit) \<times> 's"
  click_play_button :: "'s \<Rightarrow> (error + unit) \<times> 's"
  keyboard_type :: "char \<Rightarrow> 's \<Rightarrow> (error + unit) \<times> 's"
  keyboard_press_enter :: "'s \<Rightarrow> (error + unit) \<times> 's"
  query_rank_name :: "'s \<Rightarrow> (error + bool) \<times> 's"
  rank_inner_text :: "'s \<Rightarrow> (error + string) \<times> 's"
  queen_bee_is_visible :: "'s \<Rightarrow> (error + bool) \<times> 's"
  page_close :: "'s \<Rightarrow> (error + unit) \<times> 's"
  context_close :: "'s \<Rightarrow> (error + unit) \<times> 's"
  browser_close :: "'s \<Rightarrow> (error + unit) \<times> 's"

text \<open>
  \<open>query_rank_name\<close> is \<^verbatim>\<open>page.query_selector("#rank-name")\<close>, which returns an
  element or \<^verbatim>\<open>None\<close>: the result says whether there is an element. \<open>rank_inner_text\<close>
  is \<^verbatim>\<open>inner_text()\<close> of that element, and \<open>queen_bee_is_visible\<close> is
  \<^verbatim>\<open>page.get_by_text("Queen Bee").is_visible()\<close>.
\<close>

datatype call =
    Goto | WaitForPlay | ClickPlay
  | KeyType char | KeyPressEnter
  | QueryRankName | RankInnerText | QueenBeeVisible
  | PageClose | ContextClose | BrowserClose

datatype delay =
  AfterLoad | BetweenChars | BeforeEnter | Settle | Grace | BetweenWords | AfterFinish

text \<open>
  What a run does, in order: calls that returned, calls that raised, waits, and the
  message that the handler of line 166 prints for the exception it caught.
\<close>

datatype event = Returned call | Raised call error | Sleep delay | LogError error

definition perform ::
  "call \<Rightarrow> ('s \<Rightarrow> (error + 'a) \<times> 's) \<Rightarrow> 's \<Rightarrow> (error + 'a) \<times> 's \<times> event list" where
  "perform c operation s =
     (case operation s of
        (Inl e, s') \<Rightarrow> (Inl e, s', [Raised c e])
      | (Inr v, s') \<Rightarrow> (Inr v, s', [Returned c]))"

text \<open>
  \<^verbatim>\<open>str.strip()\<close> removes the white space at both ends. Among the code points below 256
  the white space characters of Python are 9 to 13, 28 to 32, 133 and 160.
\<close>

definition py_isspace :: "char \<Rightarrow> bool" where
  "py_isspace c =
     (let n = (of_char c :: nat)
      in (9 \<le> n \<and> n \<le> 13) \<or> (28 \<le> n \<and> n \<le> 32) \<or> n = 133 \<or> n = 160)"

definition strip :: "string \<Rightarrow> string" where
  "strip s = rev (dropWhile py_isspace (rev (dropWhile py_isspace s)))"

text \<open>Lines 120 to 124: the Play button, with every exception swallowed.\<close>

definition play_button :: "'s driver \<Rightarrow> 's \<Rightarrow> 's \<times> event list" where
  "play_button D s =
     (case perform WaitForPlay (wait_for_play_button D) s of
        (Inl e, s1, ev1) \<Rightarrow> (s1, ev1)
      | (Inr u, s1, ev1) \<Rightarrow>
          (case perform ClickPlay (click_play_button D) s1 of
             (r, s2, ev2) \<Rightarrow> (s2, ev1 @ ev2)))"

text \<open>Lines 115 to 126: load the game, pass the Play button, wait two seconds.\<close>

definition open_game :: "'s driver \<Rightarrow> 's \<Rightarrow> (error + unit) \<times> 's \<times> event list" where
  "open_game D s =
     (case perform Goto (goto D) s of
        (Inl e, s1, ev1) \<Rightarrow> (Inl e, s1, ev1)
      | (Inr u, s1, ev1) \<Rightarrow>
          (case play_button D s1 of
             (s2, ev2) \<Rightarrow> (Inr (), s2, ev1 @ ev2 @ [Sleep AfterLoad])))"

text \<open>Lines 131 to 134: one \<^verbatim>\<open>keyboard.type\<close> for each character, a wait after each.\<close>

fun type_chars :: "'s driver \<Rightarrow> string \<Rightarrow> 's \<Rightarrow> (error + unit) \<times> 's \<times> event list" where
  "type_chars D [] s = (Inr (), s, [])"
| "type_chars D (c # cs) s =
     (case perform (KeyType c) (keyboard_type D c) s of
        (Inl e, s1, ev1) \<Rightarrow> (Inl e, s1, ev1)
      | (Inr u, s1, ev1) \<Rightarrow>
          (case type_chars D cs s1 of
             (r, s2, ev2) \<Rightarrow> (r, s2, ev1 @ Sleep BetweenChars # ev2)))"

text \<open>Lines 131 to 138: type the word, press Enter, let the page settle.\<close>

definition submit_word :: "'s driver \<Rightarrow> string \<Rightarrow> 's \<Rightarrow> (error + unit) \<times> 's \<times> event list" where
  "submit_word D w s =
     (case type_chars D w s of
        (Inl e, s1, ev1) \<Rightarrow> (Inl e, s1, ev1)
      | (Inr u, s1, ev1) \<Rightarrow>
          (case perform KeyPressEnter (keyboard_press_enter D) s1 of
             (Inl e, s2, ev2) \<Rightarrow> (Inl e, s2, ev1 @ Sleep BeforeEnter # ev2)
           | (Inr u, s2, ev2) \<Rightarrow> (Inr (), s2, ev1 @ Sleep BeforeEnter # ev2 @ [Sleep Settle])))"

text \<open>
  Lines 143 to 145: the rank label, stripped, when the page has the element
  \<^verbatim>\<open>#rank-name\<close>; \<open>None\<close> when it has not.
\<close>

definition read_rank :: "'s driver \<Rightarrow> 's \<Rightarrow> (error + string option) \<times> 's \<times> event list" where
  "read_rank D s =
     (case perform QueryRankName (query_rank_name D) s of
        (Inl e, s1, ev1) \<Rightarrow> (Inl e, s1, ev1)
      | (Inr found, s1, ev1) \<Rightarrow>
          if found then
            (case perform RankInnerText (rank_inner_text D) s1 of
               (Inl e, s2, ev2) \<Rightarrow> (Inl e, s2, ev1 @ ev2)
             | (Inr t, s2, ev2) \<Rightarrow> (Inr (Some (strip t)), s2, ev1 @ ev2))
          else (Inr None, s1, ev1))"

text \<open>
  Lines 141 to 157, one \<^verbatim>\<open>try\<close> with a bare \<^verbatim>\<open>except: pass\<close> around both probes: the
  reason to leave the loop, if there is one. An exception of either probe ends the
  \<^verbatim>\<open>try\<close> block, so a rank probe that raises also skips the Queen Bee probe.
\<close>

datatype stop = GeniusReached | QueenBeeReached

definition check_stop :: "'s driver \<Rightarrow> 's \<Rightarrow> stop option \<times> 's \<times> event list" where
  "check_stop D s =
     (case read_rank D s of
        (Inl e, s1, ev1) \<Rightarrow> (None, s1, ev1)
      | (Inr current_rank, s1, ev1) \<Rightarrow>
          if current_rank = Some ''Genius'' then (Some GeniusReached, s1, ev1 @ [Sleep Grace])
          else
            (case perform QueenBeeVisible (queen_bee_is_visible D) s1 of
               (Inl e, s2, ev2) \<Rightarrow> (None, s2, ev1 @ ev2)
             | (Inr visible, s2, ev2) \<Rightarrow>
                 (if visible then Some QueenBeeReached else None, s2, ev1 @ ev2)))"

text \<open>
  The loop of lines 128 to 160. It ends when the words are exhausted, at a
  \<^verbatim>\<open>break\<close>, or with the exception of a keystroke.
\<close>

datatype loop_exit = Exhausted | Stopped stop | Aborted error

fun play_words :: "'s driver \<Rightarrow> string list \<Rightarrow> 's \<Rightarrow> loop_exit \<times> 's \<times> event list" where
  "play_words D [] s = (Exhausted, s, [])"
| "play_words D (w # ws) s =
     (case submit_word D w s of
        (Inl e, s1, ev1) \<Rightarrow> (Aborted e, s1, ev1)
      | (Inr u, s1, ev1) \<Rightarrow>
          (case check_stop D s1 of
             (Some reason, s2, ev2) \<Rightarrow> (Stopped reason, s2, ev1 @ ev2)
           | (None, s2, ev2) \<Rightarrow>
               (case play_words D ws s2 of
                  (x, s3, ev3) \<Rightarrow> (x, s3, ev1 @ ev2 @ Sleep BetweenWords # ev3))))"

text \<open>
  The \<^verbatim>\<open>try\<close> statement of lines 114 to 166 with its handler
  \<^verbatim>\<open>except Exception as e: print(...)\<close>: whatever is raised inside is printed and
  dropped.
\<close>

definition guarded_play :: "'s driver \<Rightarrow> string list \<Rightarrow> 's \<Rightarrow> 's \<times> event list" where
  "guarded_play D words s =
     (case open_game D s of
        (Inl e, s1, ev1) \<Rightarrow> (s1, ev1 @ [LogError e])
      | (Inr u, s1, ev1) \<Rightarrow>
          (case play_words D words s1 of
             (Aborted e, s2, ev2) \<Rightarrow> (s2, ev1 @ ev2 @ [LogError e])
           | (Exhausted, s2, ev2) \<Rightarrow> (s2, ev1 @ ev2 @ [Sleep AfterFinish])
           | (Stopped reason, s2, ev2) \<Rightarrow> (s2, ev1 @ ev2 @ [Sleep AfterFinish])))"

text \<open>The \<^verbatim>\<open>finally\<close> block, lines 167 to 170. Nothing catches what it raises.\<close>

definition close_all :: "'s driver \<Rightarrow> 's \<Rightarrow> (error + unit) \<times> 's \<times> event list" where
  "close_all D s =
     (case perform PageClose (page_close D) s of
        (Inl e, s1, ev1) \<Rightarrow> (Inl e, s1, ev1)
      | (Inr u, s1, ev1) \<Rightarrow>
          (case perform ContextClose (context_close D) s1 of
             (Inl e, s2, ev2) \<Rightarrow> (Inl e, s2, ev1 @ ev2)
           | (Inr u, s2, ev2) \<Rightarrow>
               (case perform BrowserClose (browser_close D) s2 of
                  (Inl e, s3, ev3) \<Rightarrow> (Inl e, s3, ev1 @ ev2 @ ev3)
                | (Inr u, s3, ev3) \<Rightarrow> (Inr (), s3, ev1 @ ev2 @ ev3))))"

text \<open>
  The record \<^verbatim>\<open>PlayOutcome\<close> of the specification. The script has no such record.
\<close>

record play_outcome =
  submittedCount :: nat
  stoppedEarly :: bool
  reachedRank :: "string option"

text \<open>
  \<^verbatim>\<open>run_browser_automation\<close> from line 114 on. The function has no \<^verbatim>\<open>return\<close>
  statement, so a call that ends without an exception returns \<^verbatim>\<open>None\<close>: the result
  \<open>Inr None\<close>.
\<close>

definition run_browser_automation ::
  "'s driver \<Rightarrow> string list \<Rightarrow> 's \<Rightarrow> (error + play_outcome option) \<times> 's \<times> event list" where
  "run_browser_automation D words s =
     (case guarded_play D words s of
        (s1, ev1) \<Rightarrow>
          (case close_all D s1 of
             (Inl e, s2, ev2) \<Rightarrow> (Inl e, s2, ev1 @ ev2)
           | (Inr u, s2, ev2) \<Rightarrow> (Inr None, s2, ev1 @ ev2)))"

subsection \<open>Reading a trace\<close>

text \<open>
  The words a trace submits: the characters whose \<^verbatim>\<open>keyboard.type\<close> returned, up to
  each \<^verbatim>\<open>keyboard.press("Enter")\<close> that returned.
\<close>

fun submitted_from :: "string \<Rightarrow> event list \<Rightarrow> string list" where
  "submitted_from acc [] = []"
| "submitted_from acc (Returned (KeyType c) # evs) = submitted_from (acc @ [c]) evs"
| "submitted_from acc (Returned KeyPressEnter # evs) = acc # submitted_from [] evs"
| "submitted_from acc (ev # evs) = submitted_from acc evs"

definition submitted :: "event list \<Rightarrow> string list" where
  "submitted evs = submitted_from [] evs"

text \<open>The keystrokes a trace attempts, whether they returned or raised.\<close>

fun keystroke :: "event \<Rightarrow> bool" where
  "keystroke (Returned (KeyType c)) = True"
| "keystroke (Returned KeyPressEnter) = True"
| "keystroke (Raised (KeyType c) e) = True"
| "keystroke (Raised KeyPressEnter e) = True"
| "keystroke ev = False"

subsection \<open>Example pages\<close>

text \<open>
  The state counts the words submitted so far. Every call succeeds; the rank label reads
  "Genius", with white space around it, from the third word on.
\<close>

definition genius_after_three :: "nat driver" where
  "genius_after_three =
     \<lparr>goto = (\<lambda>s. (Inr (), s)),
      wait_for_play_button = (\<lambda>s. (Inr (), s)),
      click_play_button = (\<lambda>s. (Inr (), s)),
      keyboard_type = (\<lambda>c s. (Inr (), s)),
      keyboard_press_enter = (\<lambda>s. (Inr (), Suc s)),
      query_rank_name = (\<lambda>s. (Inr True, s)),
      rank_inner_text = (\<lambda>s. (Inr (if 3 \<le> s then '' Genius '' else ''Amazing''), s)),
      queen_bee_is_visible = (\<lambda>s. (Inr False, s)),
      page_close = (\<lambda>s. (Inr (), s)),
      context_close = (\<lambda>s. (Inr (), s)),
      browser_close = (\<lambda>s. (Inr (), s))\<rparr>"

text \<open>Both probes raise, whenever they are called.\<close>

definition probes_broken :: "nat driver" where
  "probes_broken =
     genius_after_three
       \<lparr>rank_inner_text := (\<lambda>s. (Inl PlaywrightError, s)),
        queen_bee_is_visible := (\<lambda>s. (Inl PlaywrightError, s))\<rparr>"

text \<open>The rank element cannot be queried, while the text "Queen Bee" is on the page.\<close>

definition queen_bee_behind_broken_rank :: "nat driver" where
  "queen_bee_behind_broken_rank =
     genius_after_three
       \<lparr>query_rank_name := (\<lambda>s. (Inl PlaywrightError, s)),
        queen_bee_is_visible := (\<lambda>s. (Inr True, s))\<rparr>"

text \<open>The text "Queen Bee" shows after the second word; the rank label never reads "Genius".\<close>

definition queen_bee_after_two :: "nat driver" where
  "queen_bee_after_two =
     genius_after_three
       \<lparr>rank_inner_text := (\<lambda>s. (Inr ''Amazing'', s)),
        queen_bee_is_visible := (\<lambda>s. (Inr (2 \<le> s), s))\<rparr>"

text \<open>The keyboard stops working once one word has been submitted.\<close>

definition keyboard_fails_after_one :: "nat driver" where
  "keyboard_fails_after_one =
     genius_after_three
       \<lparr>keyboard_type := (\<lambda>c s. (if 1 \<le> s then Inl PlaywrightError else Inr (), s))\<rparr>"

definition five_words :: "string list" where
  "five_words = [''then'', ''tent'', ''teen'', ''teeth'', ''tenth'']"

section \<open>Properties of the scoring rule\<close>

lemma length_remdups_card: "length (remdups s) = card (set s)"
  by (simp add: length_remdups_card_conv)

text \<open>
  Claim C2, first as the specification words it: the example \<^verbatim>\<open>score("lengthy") == 7\<close>
  does not hold. The seven letters of "lengthy" are pairwise distinct, so the word
  earns the bonus and scores 14.
\<close>

theorem score_lengthy_is_not_7:
  "score_valid_word (JStr ''lengthy'') \<noteq> Inr 7"
  by (simp add: score_valid_word_def)

text \<open>
  Claim C2, amended: a word of exactly 4 letters scores 1; any other word scores its
  length, plus 7 exactly when its set of distinct characters has cardinality 7. In
  particular "word" scores 1, "lengthy" scores 14 and "abcdefg" scores 14.
\<close>

theorem score_valid_word_rule:
  "score_valid_word (JStr w) =
     Inr (if length w = 4 then 1
          else int (length w) + (if card (set w) = 7 then 7 else 0))
   \<and> score_valid_word (JStr ''word'') = Inr 1
   \<and> score_valid_word (JStr ''lengthy'') = Inr 14
   \<and> score_valid_word (JStr ''abcdefg'') = Inr 14"
  by (simp add: score_valid_word_def length_remdups_card)

theorem score_valid_word_rule_witness:
  "score_valid_word (JStr ''gallery'') = Inr 7
   \<and> score_valid_word (JStr ''allege'') = Inr 6
   \<and> score_valid_word (JStr ''bee'') = Inr 3"
  using score_valid_word_rule [of "''gallery''"] score_valid_word_rule [of "''allege''"]
    score_valid_word_rule [of "''bee''"]
  by (simp add: card_insert_if)

section \<open>Properties of the prioritizer\<close>

lemma first_non_pangram_None:
  "(first_non_pangram i xs = None) = (\<forall>x\<in>set xs. is_pangram x)"
  by (induction xs arbitrary: i) auto

lemma first_non_pangram_Some:
  "first_non_pangram i xs = Some j \<Longrightarrow> j = i + length (takeWhile is_pangram xs)"
proof (induction xs arbitrary: i)
  case Nil
  then show ?case by simp
next
  case (Cons x xs)
  show ?case
  proof (cases "is_pangram x")
    case True
    with Cons.prems have "first_non_pangram (Suc i) xs = Some j" by simp
    from Cons.IH [OF this] True show ?thesis by simp
  next
    case False
    with Cons.prems show ?thesis by simp
  qed
qed

lemma pop_at_first_non_pangram:
  assumes "dropWhile P xs = x # after"
  shows "py_pop (length (takeWhile P xs)) xs = Inr (x, takeWhile P xs @ after)"
proof -
  let ?n = "length (takeWhile P xs)"
  have split: "xs = takeWhile P xs @ x # after"
    using assms takeWhile_dropWhile_id [of P xs] by simp
  have len: "?n < length xs"
    using arg_cong [OF split, of length] by simp
  have nth: "xs ! ?n = x"
    using arg_cong [OF split, of "\<lambda>l. l ! ?n"] by (simp add: nth_append)
  have tk: "take ?n xs = takeWhile P xs"
    using arg_cong [OF split, of "take ?n"] by simp
  have dr: "drop (Suc ?n) xs = after"
    using arg_cong [OF split, of "drop (Suc ?n)"] by simp
  show ?thesis
    using len nth tk dr by (simp add: py_pop_def)
qed

lemma demote_leading_pangram_eq:
  "demote_leading_pangram xs =
     Inr (case dropWhile is_pangram xs of
            [] \<Rightarrow> xs
          | x # after \<Rightarrow> x # takeWhile is_pangram xs @ after)"
proof (cases xs)
  case Nil
  then show ?thesis by (simp add: demote_leading_pangram_def)
next
  case (Cons leader below)
  show ?thesis
  proof (cases "is_pangram leader")
    case False
    with Cons show ?thesis by (simp add: demote_leading_pangram_def)
  next
    case True
    show ?thesis
    proof (cases "first_non_pangram 0 xs")
      case None
      then have "\<forall>x\<in>set xs. is_pangram x" by (simp add: first_non_pangram_None)
      then have "dropWhile is_pangram xs = []" by simp
      with None True Cons show ?thesis
        by (simp add: demote_leading_pangram_def del: dropWhile_eq_Nil_conv)
    next
      case (Some i)
      then have i: "i = length (takeWhile is_pangram xs)"
        using first_non_pangram_Some by fastforce
      from Some have "\<not> (\<forall>x\<in>set xs. is_pangram x)"
        using first_non_pangram_None [of 0 xs] by simp
      then obtain x after where dw: "dropWhile is_pangram xs = x # after"
        by (cases "dropWhile is_pangram xs") auto
      have "demote_leading_pangram xs = Inr (x # takeWhile is_pangram xs @ after)"
        using Some True Cons i pop_at_first_non_pangram [OF dw]
        by (simp add: demote_leading_pangram_def)
      with dw show ?thesis by simp
    qed
  qed
qed

lemma build_scored_words_acc:
  "build_scored_words items acc =
     (case build_scored_words items [] of Inl e \<Rightarrow> Inl e | Inr r \<Rightarrow> Inr (acc @ r))"
proof (induction items arbitrary: acc)
  case Nil
  then show ?case by simp
next
  case (Cons it items)
  show ?case
  proof (cases "score_item it")
    case (Inl e)
    then show ?thesis by simp
  next
    case (Inr sw)
    then show ?thesis
      using Cons.IH [of "acc @ [sw]"] Cons.IH [of "[sw]"]
      by (simp split: sum.splits)
  qed
qed

lemma build_scored_words_map:
  "build_scored_words items [] = Inr scored \<Longrightarrow> map score_item items = map Inr scored"
proof (induction items arbitrary: scored)
  case Nil
  then show ?case by simp
next
  case (Cons it items)
  then show ?case
    using build_scored_words_acc [of items "[_]"]
    by (auto split: sum.splits)
qed

lemma scored_words_of_guard:
  assumes "scored_words_of data = Inr scored"
  shows "truthy data \<and> py_contains ''words'' data = Inr True"
proof (cases data)
  case (JDict kvs)
  with assms obtain v where "map_of kvs ''words'' = Some v"
    by (auto simp: scored_words_of_def split: option.splits sum.splits)
  then have "(''words'', v) \<in> set kvs" by (rule map_of_SomeD)
  then have "kvs \<noteq> []" "''words'' \<in> fst ` set kvs" by force+
  with JDict show ?thesis by simp
qed (use assms in \<open>simp_all add: scored_words_of_def\<close>)

lemma get_prioritized_words_of_scored:
  assumes "scored_words_of data = Inr scored"
  shows "get_prioritized_words data =
           Inr (map word (case dropWhile is_pangram (py_sort_desc scored) of
                            [] \<Rightarrow> py_sort_desc scored
                          | x # after \<Rightarrow> x # takeWhile is_pangram (py_sort_desc scored) @ after))"
  using assms scored_words_of_guard [OF assms]
  by (simp add: get_prioritized_words_def demote_leading_pangram_eq)


lemma py_sort_desc_set: "set (py_sort_desc xs) = set xs"
  by (simp add: py_sort_desc_def)

text \<open>
  Claim C1: when the word list holds at least one entry that is not a pangram, the first
  word returned by \<^verbatim>\<open>get_prioritized_words\<close> belongs to an entry that is not a pangram;
  when every entry is a pangram, the sorted order is returned unchanged. An entry is a
  pangram when the data source flags it or its word has seven distinct characters, which
  is the \<^verbatim>\<open>is_pangram\<close> the code computes.
\<close>

theorem first_word_is_not_a_pangram:
  assumes "scored_words_of data = Inr scored"
  shows "((\<exists>x\<in>set scored. \<not> is_pangram x) \<longrightarrow>
            (\<exists>x rest. x \<in> set scored \<and> \<not> is_pangram x
               \<and> demote_leading_pangram (py_sort_desc scored) = Inr (x # rest)
               \<and> get_prioritized_words data = Inr (word x # map word rest)))
       \<and> ((\<forall>x\<in>set scored. is_pangram x) \<longrightarrow>
            demote_leading_pangram (py_sort_desc scored) = Inr (py_sort_desc scored)
            \<and> get_prioritized_words data = Inr (map word (py_sort_desc scored)))"
proof (intro conjI impI)
  assume "\<exists>x\<in>set scored. \<not> is_pangram x"
  then have "\<not> (\<forall>x\<in>set (py_sort_desc scored). is_pangram x)"
    by (simp add: py_sort_desc_set)
  then obtain x after where dw: "dropWhile is_pangram (py_sort_desc scored) = x # after"
    by (cases "dropWhile is_pangram (py_sort_desc scored)") auto
  have "x \<in> set (dropWhile is_pangram (py_sort_desc scored))"
    by (simp add: dw)
  then have mem: "x \<in> set scored"
    using set_dropWhileD py_sort_desc_set by fastforce
  have np: "\<not> is_pangram x"
    using hd_dropWhile [of is_pangram "py_sort_desc scored"] dw by simp
  show "\<exists>x rest. x \<in> set scored \<and> \<not> is_pangram x
          \<and> demote_leading_pangram (py_sort_desc scored) = Inr (x # rest)
          \<and> get_prioritized_words data = Inr (word x # map word rest)"
    using mem np dw get_prioritized_words_of_scored [OF assms]
    by (simp add: demote_leading_pangram_eq)
next
  assume all: "\<forall>x\<in>set scored. is_pangram x"
  then have "dropWhile is_pangram (py_sort_desc scored) = []"
    by (simp add: py_sort_desc_set)
  then show "demote_leading_pangram (py_sort_desc scored) = Inr (py_sort_desc scored)"
    by (simp add: demote_leading_pangram_eq del: dropWhile_eq_Nil_conv)
  from \<open>dropWhile is_pangram (py_sort_desc scored) = []\<close>
  show "get_prioritized_words data = Inr (map word (py_sort_desc scored))"
    using get_prioritized_words_of_scored [OF assms]
    by (simp del: dropWhile_eq_Nil_conv)
qed

lemma todays_scored: "scored_words_of todays_puzzle = Inr todays_scored_words"
  by (simp add: scored_words_of_def todays_puzzle_def entry_def score_item_def
      score_valid_word_def todays_scored_words_def)

lemma pangrams_only_scored:
  "scored_words_of pangrams_only =
     Inr [\<lparr>word = JStr ''gentle'', score = 6, is_pangram = True\<rparr>,
          \<lparr>word = JStr ''lengthy'', score = 14, is_pangram = True\<rparr>]"
  by (simp add: scored_words_of_def pangrams_only_def entry_def score_item_def
      score_valid_word_def)

lemma py_sort_desc_mset: "mset (py_sort_desc xs) = mset xs"
  by (simp add: py_sort_desc_def)

lemma py_sort_desc_sorted: "sorted_wrt (\<lambda>a b. score b \<le> score a) (py_sort_desc xs)"
proof -
  have "sorted (map (\<lambda>x. - score x) (sort_key (\<lambda>x. - score x) xs))"
    by (rule sorted_sort_key)
  then show ?thesis
    by (simp add: py_sort_desc_def sorted_map)
qed

lemma py_sort_desc_stable:
  "filter (\<lambda>x. score x = k) (py_sort_desc xs) = filter (\<lambda>x. score x = k) xs"
proof -
  have "filter (\<lambda>x. - score x = - k) (sort_key (\<lambda>x. - score x) xs)
          = filter (\<lambda>x. - score x = - k) xs"
    by (rule sort_key_stable)
  then show ?thesis
    by (simp add: py_sort_desc_def)
qed

lemma scored_words_of_items:
  assumes "scored_words_of data = Inr scored"
  shows "\<exists>ws items. py_getitem data ''words'' = Inr ws \<and> py_iter ws = Inr items
           \<and> map score_item items = map Inr scored"
  using assms build_scored_words_map
  by (auto simp: scored_words_of_def split: sum.splits)

text \<open>
  Claim C3: the entries are built in input order and sorted by score, highest first, entries
  of equal score keeping their input order. Then the first entry that is not a pangram is
  taken out and put at index 0, the pangrams before it and the entries after it keeping
  their order; that leaves the list as it is when its head is not a pangram. With no such
  entry the sorted order is the result.
\<close>

theorem sort_then_move_first_non_pangram:
  assumes "scored_words_of data = Inr scored"
  shows "(\<exists>ws items. py_getitem data ''words'' = Inr ws \<and> py_iter ws = Inr items
            \<and> map score_item items = map Inr scored)
       \<and> sorted_wrt (\<lambda>a b. score b \<le> score a) (py_sort_desc scored)
       \<and> mset (py_sort_desc scored) = mset scored
       \<and> (\<forall>k. filter (\<lambda>x. score x = k) (py_sort_desc scored)
                 = filter (\<lambda>x. score x = k) scored)
       \<and> (\<forall>pangrams x after.
             py_sort_desc scored = pangrams @ x # after
             \<and> (\<forall>p\<in>set pangrams. is_pangram p) \<and> \<not> is_pangram x
             \<longrightarrow> get_prioritized_words data = Inr (map word (x # pangrams @ after)))
       \<and> ((\<forall>x\<in>set scored. is_pangram x)
             \<longrightarrow> get_prioritized_words data = Inr (map word (py_sort_desc scored)))"
proof (intro conjI allI impI)
  show "\<exists>ws items. py_getitem data ''words'' = Inr ws \<and> py_iter ws = Inr items
          \<and> map score_item items = map Inr scored"
    by (rule scored_words_of_items [OF assms])
  show "sorted_wrt (\<lambda>a b. score b \<le> score a) (py_sort_desc scored)"
    by (rule py_sort_desc_sorted)
  show "mset (py_sort_desc scored) = mset scored"
    by (rule py_sort_desc_mset)
  show "filter (\<lambda>x. score x = k) (py_sort_desc scored) = filter (\<lambda>x. score x = k) scored"
    for k by (rule py_sort_desc_stable)
next
  fix pangrams x after
  assume h: "py_sort_desc scored = pangrams @ x # after
             \<and> (\<forall>p\<in>set pangrams. is_pangram p) \<and> \<not> is_pangram x"
  then have "takeWhile is_pangram (py_sort_desc scored) = pangrams"
    and "dropWhile is_pangram (py_sort_desc scored) = x # after"
    by (simp_all add: takeWhile_append2 dropWhile_append2)
  then show "get_prioritized_words data = Inr (map word (x # pangrams @ after))"
    using get_prioritized_words_of_scored [OF assms] by simp
next
  assume "\<forall>x\<in>set scored. is_pangram x"
  then have "dropWhile is_pangram (py_sort_desc scored) = []"
    by (simp add: py_sort_desc_set)
  then show "get_prioritized_words data = Inr (map word (py_sort_desc scored))"
    using get_prioritized_words_of_scored [OF assms]
    by (simp del: dropWhile_eq_Nil_conv)
qed

text \<open>The two halves of claim C1 on \<open>todays_puzzle\<close> and on \<open>pangrams_only\<close>.\<close>

theorem first_word_is_not_a_pangram_witness:
  "scored_words_of todays_puzzle = Inr todays_scored_words
   \<and> (\<exists>x\<in>set todays_scored_words. \<not> is_pangram x)
   \<and> (\<exists>x rest. x \<in> set todays_scored_words \<and> \<not> is_pangram x
         \<and> demote_leading_pangram (py_sort_desc todays_scored_words) = Inr (x # rest)
         \<and> get_prioritized_words todays_puzzle = Inr (word x # map word rest))
   \<and> get_prioritized_words pangrams_only = Inr [JStr ''lengthy'', JStr ''gentle'']"
proof -
  have ex: "\<exists>x\<in>set todays_scored_words. \<not> is_pangram x"
    by (simp add: todays_scored_words_def)
  have all: "\<forall>x\<in>set [\<lparr>word = JStr ''gentle'', score = 6, is_pangram = True\<rparr>,
                      \<lparr>word = JStr ''lengthy'', score = 14, is_pangram = True\<rparr>]. is_pangram x"
    by simp
  show ?thesis
    using first_word_is_not_a_pangram [OF todays_scored] ex
      first_word_is_not_a_pangram [OF pangrams_only_scored] all todays_scored
    by (simp add: py_sort_desc_def)
qed

text \<open>
  Claim C3 on \<open>todays_puzzle\<close>: "gentle" and "length" tie at 6 and keep their input
  order; "length", the first entry that is not a pangram, moves in front of "lengthy" and
  "gentle".
\<close>

theorem sort_then_move_first_non_pangram_witness:
  "scored_words_of todays_puzzle = Inr todays_scored_words
   \<and> py_sort_desc todays_scored_words =
       [\<lparr>word = JStr ''lengthy'', score = 14, is_pangram = True\<rparr>,
        \<lparr>word = JStr ''gentle'', score = 6, is_pangram = True\<rparr>]
       @ \<lparr>word = JStr ''length'', score = 6, is_pangram = False\<rparr>
       # [\<lparr>word = JStr ''teeth'', score = 5, is_pangram = False\<rparr>,
          \<lparr>word = JStr ''tenth'', score = 5, is_pangram = False\<rparr>,
          \<lparr>word = JStr ''then'', score = 1, is_pangram = False\<rparr>]
   \<and> get_prioritized_words todays_puzzle =
       Inr [JStr ''length'', JStr ''lengthy'', JStr ''gentle'', JStr ''teeth'', JStr ''tenth'',
            JStr ''then'']"
proof -
  let ?ps = "[\<lparr>word = JStr ''lengthy'', score = 14, is_pangram = True\<rparr>,
        \<lparr>word = JStr ''gentle'', score = 6, is_pangram = True\<rparr>]"
  let ?x = "\<lparr>word = JStr ''length'', score = 6, is_pangram = False\<rparr>"
  let ?after = "[\<lparr>word = JStr ''teeth'', score = 5, is_pangram = False\<rparr>,
          \<lparr>word = JStr ''tenth'', score = 5, is_pangram = False\<rparr>,
          \<lparr>word = JStr ''then'', score = 1, is_pangram = False\<rparr>]"
  have sorted: "py_sort_desc todays_scored_words = ?ps @ ?x # ?after"
    by (simp add: py_sort_desc_def todays_scored_words_def)
  have "py_sort_desc todays_scored_words = ?ps @ ?x # ?after
          \<and> (\<forall>p\<in>set ?ps. is_pangram p) \<and> \<not> is_pangram ?x
        \<longrightarrow> get_prioritized_words todays_puzzle = Inr (map word (?x # ?ps @ ?after))"
    using sort_then_move_first_non_pangram [OF todays_scored] by blast
  with sorted show ?thesis
    using todays_scored by simp
qed

lemma well_formed_entry_scores:
  assumes "well_formed_entry it"
  shows "\<exists>sw. score_item it = Inr sw \<and> py_getitem it ''word'' = Inr (word sw)"
proof -
  from assms obtain kvs where it: "it = JDict kvs"
    by (cases it) (simp_all add: well_formed_entry_def)
  with assms obtain v where v: "map_of kvs ''word'' = Some v"
    by (cases "map_of kvs ''word''") (simp_all add: well_formed_entry_def)
  with assms it obtain w where "v = JStr w"
    by (cases v) (simp_all add: well_formed_entry_def)
  with v have w: "map_of kvs ''word'' = Some (JStr w)" by simp
  show ?thesis
    by (simp add: it w score_item_def score_valid_word_def)
qed

lemma build_scored_words_well_formed:
  assumes "\<forall>it\<in>set items. well_formed_entry it"
  shows "\<exists>scored. build_scored_words items [] = Inr scored \<and> length scored = length items
            \<and> map (\<lambda>it. py_getitem it ''word'') items = map (\<lambda>sw. Inr (word sw)) scored"
  using assms
proof (induction items)
  case Nil
  then show ?case by simp
next
  case (Cons it items)
  then obtain scored where sc: "build_scored_words items [] = Inr scored"
      "length scored = length items"
      "map (\<lambda>it. py_getitem it ''word'') items = map (\<lambda>sw. Inr (word sw)) scored"
    by auto
  from Cons.prems obtain sw where sw: "score_item it = Inr sw" "py_getitem it ''word'' = Inr (word sw)"
    using well_formed_entry_scores by fastforce
  have "build_scored_words (it # items) [] = Inr (sw # scored)"
    using sw sc build_scored_words_acc [of items "[sw]"] by simp
  with sc sw show ?case by simp
qed

lemma build_scored_words_raises:
  assumes "\<exists>it\<in>set items. isl (score_item it)"
  shows "isl (build_scored_words items acc)"
  using assms
proof (induction items arbitrary: acc)
  case Nil
  then show ?case by simp
next
  case (Cons it items)
  show ?case
  proof (cases "score_item it")
    case (Inl e)
    then show ?thesis by simp
  next
    case (Inr sw)
    with Cons.prems have "\<exists>it\<in>set items. isl (score_item it)" by auto
    from Cons.IH [OF this] Inr show ?thesis by simp
  qed
qed

lemma score_item_without_word:
  "\<not> (\<exists>w. py_getitem it ''word'' = Inr w) \<Longrightarrow> isl (score_item it)"
  by (cases "py_getitem it ''word''") (simp_all add: score_item_def)

lemma final_order_mset:
  "mset (case dropWhile P xs of [] \<Rightarrow> xs | x # after \<Rightarrow> x # takeWhile P xs @ after) = mset xs"
proof (cases "dropWhile P xs")
  case Nil
  then show ?thesis by (simp del: dropWhile_eq_Nil_conv)
next
  case (Cons x after)
  have "mset xs = mset (takeWhile P xs @ dropWhile P xs)" by simp
  also have "\<dots> = mset (x # takeWhile P xs @ after)" by (simp add: Cons)
  finally show ?thesis by (simp add: Cons)
qed

text \<open>
  Claim C4, as the specification words it, fails: an entry without the key
  \<^verbatim>\<open>word\<close> is not dropped. The subscript \<^verbatim>\<open>item["word"]\<close> raises \<^verbatim>\<open>KeyError\<close>, which
  nothing in \<^verbatim>\<open>get_prioritized_words\<close> catches.
\<close>

theorem malformed_entry_raises:
  "get_prioritized_words entry_without_word = Inl KeyError"
  by (simp add: get_prioritized_words_def entry_without_word_def scored_words_of_def
      entry_def score_item_def score_valid_word_def)

text \<open>
  Claim C4, amended: a false value of \<^verbatim>\<open>data\<close> (empty dictionary, \<^verbatim>\<open>None\<close>) and a
  dictionary without the key \<^verbatim>\<open>words\<close> give the empty list. When every entry of the
  word list is well formed, the call returns, and the result has one word for each entry:
  it is a rearrangement of the entries' words. An entry whose \<^verbatim>\<open>word\<close> cannot be read is
  not dropped: the call raises.
\<close>

theorem empty_or_well_formed_input:
  "(\<not> truthy data \<longrightarrow> get_prioritized_words data = Inr [])
   \<and> (\<forall>kvs. data = JDict kvs \<and> ''words'' \<notin> fst ` set kvs
         \<longrightarrow> get_prioritized_words data = Inr [])
   \<and> (\<forall>kvs items. data = JDict kvs \<and> map_of kvs ''words'' = Some (JList items)
         \<and> (\<forall>it\<in>set items. well_formed_entry it)
         \<longrightarrow> (\<exists>out. get_prioritized_words data = Inr out \<and> length out = length items
                 \<and> mset (map Inr out) = mset (map (\<lambda>it. py_getitem it ''word'') items)))
   \<and> (\<forall>kvs items. data = JDict kvs \<and> map_of kvs ''words'' = Some (JList items)
         \<and> (\<exists>it\<in>set items. \<not> (\<exists>w. py_getitem it ''word'' = Inr w))
         \<longrightarrow> (\<exists>e. get_prioritized_words data = Inl e))"
proof (intro conjI allI impI)
  assume "\<not> truthy data"
  then show "get_prioritized_words data = Inr []"
    by (simp add: get_prioritized_words_def)
next
  fix kvs
  assume "data = JDict kvs \<and> ''words'' \<notin> fst ` set kvs"
  then show "get_prioritized_words data = Inr []"
    by (simp add: get_prioritized_words_def)
next
  fix kvs items
  assume h: "data = JDict kvs \<and> map_of kvs ''words'' = Some (JList items)
             \<and> (\<forall>it\<in>set items. well_formed_entry it)"
  then obtain scored where sc: "build_scored_words items [] = Inr scored"
      "length scored = length items"
      "map (\<lambda>it. py_getitem it ''word'') items = map (\<lambda>sw. Inr (word sw)) scored"
    using build_scored_words_well_formed by blast
  define final where
    "final = (case dropWhile is_pangram (py_sort_desc scored) of
                [] \<Rightarrow> py_sort_desc scored
              | x # after \<Rightarrow> x # takeWhile is_pangram (py_sort_desc scored) @ after)"
  have "scored_words_of data = Inr scored"
    using h sc by (simp add: scored_words_of_def)
  then have out: "get_prioritized_words data = Inr (map word final)"
    unfolding final_def by (rule get_prioritized_words_of_scored)
  have ms: "mset final = mset scored"
    unfolding final_def
    using final_order_mset [where P = is_pangram and xs = "py_sort_desc scored"]
    by (simp add: py_sort_desc_mset)
  have "length final = length scored"
    using arg_cong [OF ms, of size] by simp
  then have len: "length (map word final) = length items"
    using sc by simp
  have "mset (map Inr (map word final)) = image_mset (\<lambda>sw. Inr (word sw)) (mset final)"
    by (simp add: comp_def)
  also have "\<dots> = mset (map (\<lambda>sw. Inr (word sw)) scored)"
    by (simp add: ms)
  also have "\<dots> = mset (map (\<lambda>it. py_getitem it ''word'') items)"
    by (simp only: sc(3))
  finally have perm: "mset (map Inr (map word final))
                        = mset (map (\<lambda>it. py_getitem it ''word'') items)" .
  show "\<exists>out. get_prioritized_words data = Inr out \<and> length out = length items
          \<and> mset (map Inr out) = mset (map (\<lambda>it. py_getitem it ''word'') items)"
    using out len perm by blast
next
  fix kvs items
  assume h: "data = JDict kvs \<and> map_of kvs ''words'' = Some (JList items)
             \<and> (\<exists>it\<in>set items. \<not> (\<exists>w. py_getitem it ''word'' = Inr w))"
  then have "\<exists>it\<in>set items. isl (score_item it)"
    using score_item_without_word by blast
  then have "isl (build_scored_words items [])"
    by (rule build_scored_words_raises)
  then obtain e where e: "build_scored_words items [] = Inl e"
    by (cases "build_scored_words items []") auto
  from h have "(''words'', JList items) \<in> set kvs"
    using map_of_SomeD by fastforce
  then have "kvs \<noteq> []" "''words'' \<in> fst ` set kvs" by force+
  with h e show "\<exists>e. get_prioritized_words data = Inl e"
    by (simp add: get_prioritized_words_def scored_words_of_def)
qed

text \<open>
  Claim C4, amended, on the empty dictionary, on a dictionary without \<^verbatim>\<open>words\<close>, on
  \<open>todays_puzzle\<close> and on \<open>entry_without_word\<close>.
\<close>

theorem empty_or_well_formed_input_witness:
  "get_prioritized_words (JDict []) = Inr []
   \<and> get_prioritized_words (JDict [(''puzzle'', JNull)]) = Inr []
   \<and> (\<exists>out. get_prioritized_words todays_puzzle = Inr out \<and> length out = 6
         \<and> mset (map Inr out)
             = mset (map (\<lambda>it. py_getitem it ''word'')
                 [entry ''then'' 0, entry ''gentle'' 1, entry ''lengthy'' 1,
                  entry ''length'' 0, entry ''teeth'' 0, entry ''tenth'' 0]))
   \<and> (\<exists>e. get_prioritized_words entry_without_word = Inl e)"
proof -
  let ?items = "[entry ''then'' 0, entry ''gentle'' 1, entry ''lengthy'' 1,
                  entry ''length'' 0, entry ''teeth'' 0, entry ''tenth'' 0]"
  let ?kvs = "[(''puzzle'', JDict [(''date'', JStr ''2024-01-01''), (''letters'', JStr ''e'')]),
            (''words'', JList ?items)]"
  let ?bad = "[entry ''then'' 0, JDict [(''is_pangram'', JInt 0)]]"
  have a: "\<not> truthy (JDict [])" by simp
  have b: "JDict [(''puzzle'', JNull)] = JDict [(''puzzle'', JNull)]
           \<and> ''words'' \<notin> fst ` set [(''puzzle'', JNull)]" by simp
  have c: "todays_puzzle = JDict ?kvs \<and> map_of ?kvs ''words'' = Some (JList ?items)
           \<and> (\<forall>it\<in>set ?items. well_formed_entry it)"
    by (simp add: todays_puzzle_def well_formed_entry_def entry_def)
  have d: "entry_without_word = JDict [(''words'', JList ?bad)]
           \<and> map_of [(''words'', JList ?bad)] ''words'' = Some (JList ?bad)
           \<and> (\<exists>it\<in>set ?bad. \<not> (\<exists>w. py_getitem it ''word'' = Inr w))"
    by (simp add: entry_without_word_def)
  from empty_or_well_formed_input [of "JDict []"] a
  have 1: "get_prioritized_words (JDict []) = Inr []" by blast
  from empty_or_well_formed_input [of "JDict [(''puzzle'', JNull)]"] b
  have 2: "get_prioritized_words (JDict [(''puzzle'', JNull)]) = Inr []" by blast
  from empty_or_well_formed_input [of todays_puzzle] c
  have 3: "\<exists>out. get_prioritized_words todays_puzzle = Inr out \<and> length out = length ?items
         \<and> mset (map Inr out) = mset (map (\<lambda>it. py_getitem it ''word'') ?items)" by blast
  from empty_or_well_formed_input [of entry_without_word] d
  have 4: "\<exists>e. get_prioritized_words entry_without_word = Inl e" by blast
  have six: "length ?items = 6" by simp
  from 3 have three: "\<exists>out. get_prioritized_words todays_puzzle = Inr out \<and> length out = 6
         \<and> mset (map Inr out) = mset (map (\<lambda>it. py_getitem it ''word'') ?items)"
    by (simp only: six)
  from 1 2 three 4 show ?thesis by blast
qed

lemma score_item_fields:
  assumes "score_item (JDict kvs) = Inr sw"
  shows "py_getitem (JDict kvs) ''word'' = Inr (word sw)
       \<and> score_valid_word (word sw) = Inr (score sw)
       \<and> is_pangram sw =
           (py_eq_one (case map_of kvs ''is_pangram'' of None \<Rightarrow> JInt 0 | Some v \<Rightarrow> v)
            \<or> py_len_set (word sw) = Inr 7)"
  using assms
  by (auto simp: score_item_def split: option.splits sum.splits if_splits)

text \<open>
  Claim C10, as worded, fails where every entry counts as a pangram: nothing is moved,
  and a word that the data source flags although it has fewer than seven distinct letters
  stays at position 0.
\<close>

theorem flagged_word_takes_first_place:
  "score_item (entry ''gentle'' 1) = Inr \<lparr>word = JStr ''gentle'', score = 6, is_pangram = True\<rparr>
   \<and> card (set ''gentle'') = 5
   \<and> get_prioritized_words flagged_only = Inr [JStr ''gentle'']"
  by (simp add: get_prioritized_words_def flagged_only_def scored_words_of_def
      entry_def score_item_def score_valid_word_def py_sort_desc_def
      demote_leading_pangram_def card_insert_if)

text \<open>
  Claim C10, amended: the score of an entry is \<^verbatim>\<open>score_valid_word\<close> of its word, whatever
  the flag of the data source; the entry counts as a pangram when the flag equals 1 or
  the word has seven distinct characters. So a flagged word with fewer than seven distinct
  letters scores no bonus and counts as a pangram; and whenever some entry is not a
  pangram, the word at position 0 of the result belongs to an entry that is not a pangram,
  hence not to a flagged one.
\<close>

theorem flag_demotes_without_bonus:
  "(score_item (JDict kvs) = Inr sw \<longrightarrow>
      py_getitem (JDict kvs) ''word'' = Inr (word sw)
      \<and> score_valid_word (word sw) = Inr (score sw)
      \<and> is_pangram sw =
          (py_eq_one (case map_of kvs ''is_pangram'' of None \<Rightarrow> JInt 0 | Some v \<Rightarrow> v)
           \<or> py_len_set (word sw) = Inr 7))
   \<and> (map_of kvs ''word'' = Some (JStr w) \<and> map_of kvs ''is_pangram'' = Some flag
        \<and> py_eq_one flag \<and> card (set w) < 7 \<longrightarrow>
      score_item (JDict kvs) =
        Inr \<lparr>word = JStr w, score = (if length w = 4 then 1 else int (length w)),
             is_pangram = True\<rparr>)
   \<and> (scored_words_of data = Inr scored \<and> (\<exists>x\<in>set scored. \<not> is_pangram x) \<longrightarrow>
      (\<exists>x rest. x \<in> set scored \<and> \<not> is_pangram x
         \<and> get_prioritized_words data = Inr (word x # rest)))"
proof -
  have A: "score_item (JDict kvs) = Inr sw \<longrightarrow>
      py_getitem (JDict kvs) ''word'' = Inr (word sw)
      \<and> score_valid_word (word sw) = Inr (score sw)
      \<and> is_pangram sw =
          (py_eq_one (case map_of kvs ''is_pangram'' of None \<Rightarrow> JInt 0 | Some v \<Rightarrow> v)
           \<or> py_len_set (word sw) = Inr 7)"
    using score_item_fields by blast
  have B: "map_of kvs ''word'' = Some (JStr w) \<and> map_of kvs ''is_pangram'' = Some flag
        \<and> py_eq_one flag \<and> card (set w) < 7 \<longrightarrow>
      score_item (JDict kvs) =
        Inr \<lparr>word = JStr w, score = (if length w = 4 then 1 else int (length w)),
             is_pangram = True\<rparr>"
    by (simp add: score_item_def score_valid_word_def length_remdups_card)
  have C: "scored_words_of data = Inr scored \<and> (\<exists>x\<in>set scored. \<not> is_pangram x) \<longrightarrow>
      (\<exists>x rest. x \<in> set scored \<and> \<not> is_pangram x
         \<and> get_prioritized_words data = Inr (word x # rest))"
  proof
    assume h: "scored_words_of data = Inr scored \<and> (\<exists>x\<in>set scored. \<not> is_pangram x)"
    then have sc: "scored_words_of data = Inr scored" by simp
    from h have "\<not> (\<forall>x\<in>set (py_sort_desc scored). is_pangram x)"
      by (simp add: py_sort_desc_set)
    then obtain x after where dw: "dropWhile is_pangram (py_sort_desc scored) = x # after"
      by (cases "dropWhile is_pangram (py_sort_desc scored)") auto
    have "x \<in> set (dropWhile is_pangram (py_sort_desc scored))"
      by (simp add: dw)
    then have mem: "x \<in> set scored"
      using set_dropWhileD py_sort_desc_set by fastforce
    have np: "\<not> is_pangram x"
      using hd_dropWhile [of is_pangram "py_sort_desc scored"] dw by simp
    show "\<exists>x rest. x \<in> set scored \<and> \<not> is_pangram x
            \<and> get_prioritized_words data = Inr (word x # rest)"
      using mem np dw get_prioritized_words_of_scored [OF sc] by auto
  qed
  from A B C show ?thesis by (intro conjI)
qed

text \<open>Claim C10, amended, on the flagged entry "gentle" and on \<open>todays_puzzle\<close>.\<close>

theorem flag_demotes_without_bonus_witness:
  "score_item (entry ''gentle'' 1) = Inr \<lparr>word = JStr ''gentle'', score = 6, is_pangram = True\<rparr>
   \<and> score_valid_word (JStr ''gentle'') = Inr 6
   \<and> (\<exists>x rest. x \<in> set todays_scored_words \<and> \<not> is_pangram x
         \<and> get_prioritized_words todays_puzzle = Inr (word x # rest))"
proof -
  let ?kvs = "[(''word'', JStr ''gentle''), (''is_pangram'', JInt 1)]"
  have a: "map_of ?kvs ''word'' = Some (JStr ''gentle'') \<and> map_of ?kvs ''is_pangram'' = Some (JInt 1)
        \<and> py_eq_one (JInt 1) \<and> card (set ''gentle'') < 7"
    by (simp add: card_insert_if)
  from flag_demotes_without_bonus [of ?kvs _ "''gentle''" "JInt 1"] a
  have 1: "score_item (JDict ?kvs) =
        Inr \<lparr>word = JStr ''gentle'', score = (if length ''gentle'' = 4 then 1 else int (length ''gentle'')),
             is_pangram = True\<rparr>" by blast
  from flag_demotes_without_bonus [of ?kvs "\<lparr>word = JStr ''gentle'', score = 6, is_pangram = True\<rparr>"] 1
  have 2: "score_valid_word (JStr ''gentle'') = Inr 6" by simp
  have b: "scored_words_of todays_puzzle = Inr todays_scored_words
           \<and> (\<exists>x\<in>set todays_scored_words. \<not> is_pangram x)"
    using todays_scored by (simp add: todays_scored_words_def)
  from flag_demotes_without_bonus [of _ _ _ _ todays_puzzle todays_scored_words] b
  have 3: "\<exists>x rest. x \<in> set todays_scored_words \<and> \<not> is_pangram x
         \<and> get_prioritized_words todays_puzzle = Inr (word x # rest)" by blast
  from 1 2 3 show ?thesis by (simp add: entry_def)
qed

section \<open>The prioritizer and the memory\<close>

lemma append_scored_words_data:
  "caller_data (snd (append_scored_words items m)) = caller_data m"
proof (induction items arbitrary: m)
  case Nil
  then show ?case by simp
next
  case (Cons it items)
  then show ?case by (cases "score_item it") simp_all
qed

lemma append_scored_words_result:
  "fst (append_scored_words items m) =
     (case build_scored_words items (scored_words m) of Inl e \<Rightarrow> Inl e | Inr r \<Rightarrow> Inr ())"
proof (induction items arbitrary: m)
  case Nil
  then show ?case by simp
next
  case (Cons it items)
  then show ?case by (cases "score_item it") simp_all
qed

lemma append_scored_words_list:
  "build_scored_words items (scored_words m) = Inr r
     \<Longrightarrow> scored_words (snd (append_scored_words items m)) = r"
proof (induction items arbitrary: m)
  case Nil
  then show ?case by simp
next
  case (Cons it items)
  then show ?case by (cases "score_item it") simp_all
qed

lemma demote_in_place_data: "caller_data (snd (demote_in_place m)) = caller_data m"
  by (simp add: demote_in_place_def split: list.splits option.splits sum.splits prod.splits)

lemma demote_in_place_result:
  "fst (demote_in_place m) =
     (case demote_leading_pangram (scored_words m) of Inl e \<Rightarrow> Inl e | Inr r \<Rightarrow> Inr ())"
  by (simp add: demote_in_place_def demote_leading_pangram_def
      split: list.splits option.splits sum.splits prod.splits)

lemma demote_in_place_list:
  "demote_leading_pangram (scored_words m) = Inr r
     \<Longrightarrow> scored_words (snd (demote_in_place m)) = r"
  by (auto simp: demote_in_place_def demote_leading_pangram_def
      split: list.splits option.splits sum.splits prod.splits if_splits)

lemma call_preserves_data:
  "caller_data (snd (get_prioritized_words_call m)) = caller_data m"
proof -
  have a: "caller_data (snd (append_scored_words items (m\<lparr>scored_words := []\<rparr>))) = caller_data m"
    for items by (simp add: append_scored_words_data)
  have b: "append_scored_words items (m\<lparr>scored_words := []\<rparr>) = (r, m2) \<Longrightarrow> caller_data m2 = caller_data m"
    for items r m2 using a [of items] by simp
  have c: "demote_in_place m3 = (r, m4) \<Longrightarrow> caller_data m4 = caller_data m3"
    for m3 r m4 using demote_in_place_data [of m3] by simp
  show ?thesis
    by (auto simp: get_prioritized_words_call_def Let_def
        split: sum.splits prod.splits dest!: b c)
qed

lemma call_refines:
  "fst (get_prioritized_words_call m) = get_prioritized_words (caller_data m)"
proof (cases "truthy (caller_data m)")
  case False
  then show ?thesis
    by (simp add: get_prioritized_words_call_def get_prioritized_words_def)
next
  case True
  show ?thesis
  proof (cases "py_contains ''words'' (caller_data m)")
    case (Inl e)
    with True show ?thesis
      by (simp add: get_prioritized_words_call_def get_prioritized_words_def)
  next
    case (Inr present)
    show ?thesis
    proof (cases present)
      case False
      with True Inr show ?thesis
        by (simp add: get_prioritized_words_call_def get_prioritized_words_def)
    next
      case present: True
      let ?m1 = "m\<lparr>scored_words := []\<rparr>"
      show ?thesis
      proof (cases "py_getitem (caller_data m) ''words''")
        case (Inl e)
        with True Inr present show ?thesis
          by (simp add: get_prioritized_words_call_def get_prioritized_words_def
              scored_words_of_def)
      next
        case ws: (Inr ws)
        show ?thesis
        proof (cases "py_iter ws")
          case (Inl e)
          with True Inr present ws show ?thesis
            by (simp add: get_prioritized_words_call_def get_prioritized_words_def
                scored_words_of_def)
        next
          case items: (Inr items)
          obtain r2 m2 where ap: "append_scored_words items ?m1 = (r2, m2)"
            by (cases "append_scored_words items ?m1")
          show ?thesis
          proof (cases "build_scored_words items []")
            case (Inl e)
            then have "r2 = Inl e"
              using append_scored_words_result [of items ?m1] ap by simp
            with True Inr present ws items ap Inl show ?thesis
              by (simp add: get_prioritized_words_call_def get_prioritized_words_def
                  scored_words_of_def)
          next
            case scored: (Inr scored)
            then have r2: "r2 = Inr ()"
              using append_scored_words_result [of items ?m1] ap by simp
            have l2: "scored_words m2 = scored"
              using append_scored_words_list [of items ?m1 scored] ap scored by simp
            let ?m3 = "m2\<lparr>scored_words := py_sort_desc scored\<rparr>"
            obtain r4 m4 where dm: "demote_in_place ?m3 = (r4, m4)"
              by (cases "demote_in_place ?m3")
            obtain final where fin: "demote_leading_pangram (py_sort_desc scored) = Inr final"
              by (simp add: demote_leading_pangram_eq)
            have r4: "r4 = Inr ()"
              using demote_in_place_result [of ?m3] dm fin by simp
            have l4: "scored_words m4 = final"
              using demote_in_place_list [of ?m3 final] dm fin by simp
            from True Inr present ws items ap r2 l2 dm r4 l4 fin scored show ?thesis
              by (simp add: get_prioritized_words_call_def get_prioritized_words_def
                  scored_words_of_def)
          qed
        qed
      qed
    qed
  qed
qed

text \<open>
  Claim C9: a call of \<^verbatim>\<open>get_prioritized_words\<close> leaves the caller's \<^verbatim>\<open>data\<close> as it was;
  a second call, run in the memory that the first one left, returns what the first
  returned (the same list, or the same exception); and that result depends on
  \<^verbatim>\<open>data\<close> alone, not on what the memory held before.
\<close>

theorem repeated_call_same_output_input_untouched:
  "caller_data (snd (get_prioritized_words_call m)) = caller_data m
   \<and> fst (get_prioritized_words_call (snd (get_prioritized_words_call m)))
       = fst (get_prioritized_words_call m)
   \<and> fst (get_prioritized_words_call m) = get_prioritized_words (caller_data m)"
  by (simp add: call_refines call_preserves_data)

lemma todays_output:
  "get_prioritized_words todays_puzzle =
     Inr [JStr ''length'', JStr ''lengthy'', JStr ''gentle'', JStr ''teeth'', JStr ''tenth'',
          JStr ''then'']"
  using get_prioritized_words_of_scored [OF todays_scored]
  by (simp add: py_sort_desc_def todays_scored_words_def)

text \<open>Claim C9 on a memory that holds a stale list.\<close>

theorem repeated_call_same_output_input_untouched_witness:
  "caller_data (snd (get_prioritized_words_call stale_memory)) = todays_puzzle
   \<and> fst (get_prioritized_words_call stale_memory) =
       Inr [JStr ''length'', JStr ''lengthy'', JStr ''gentle'', JStr ''teeth'', JStr ''tenth'',
            JStr ''then'']
   \<and> fst (get_prioritized_words_call (snd (get_prioritized_words_call stale_memory))) =
       Inr [JStr ''length'', JStr ''lengthy'', JStr ''gentle'', JStr ''teeth'', JStr ''tenth'',
            JStr ''then'']"
proof -
  have "caller_data stale_memory = todays_puzzle"
    by (simp add: stale_memory_def)
  then show ?thesis
    using repeated_call_same_output_input_untouched [of stale_memory] todays_output
    by simp
qed

section \<open>Properties of the play loop\<close>

lemma submitted_from_skip:
  "\<forall>x\<in>set evs. \<not> keystroke x \<Longrightarrow> submitted_from acc (evs @ rest) = submitted_from acc rest"
proof (induction acc evs rule: submitted_from.induct)
qed auto

lemma submitted_from_no_enter:
  "Returned KeyPressEnter \<notin> set evs \<Longrightarrow> submitted_from acc evs = []"
proof (induction acc evs rule: submitted_from.induct)
qed auto

lemma perform_cases:
  obtains (raised) e s' where "perform c operation s = (Inl e, s', [Raised c e])"
      and "operation s = (Inl e, s')"
    | (returned) v s' where "perform c operation s = (Inr v, s', [Returned c])"
      and "operation s = (Inr v, s')"
proof (cases "operation s")
  case (Pair r s')
  then show ?thesis
    by (cases r) (auto simp: perform_def intro: raised returned)
qed

lemma type_chars_returned:
  "type_chars D w s = (Inr u, s1, ev)
     \<Longrightarrow> submitted_from acc (ev @ rest) = submitted_from (acc @ w) rest"
proof (induction w arbitrary: s acc ev)
  case Nil
  then show ?case by simp
next
  case (Cons c cs)
  show ?case
  proof (cases rule: perform_cases [of "KeyType c" "keyboard_type D c" s])
    case (raised e s')
    with Cons.prems show ?thesis by simp
  next
    case (returned v s')
    obtain r s2 ev2 where tc: "type_chars D cs s' = (r, s2, ev2)"
      by (cases "type_chars D cs s'") auto
    with Cons.prems returned have r: "r = Inr u" "s2 = s1"
      and ev: "ev = Returned (KeyType c) # Sleep BetweenChars # ev2"
      by auto
    from tc r have "type_chars D cs s' = (Inr u, s1, ev2)" by simp
    from Cons.IH [OF this, of "acc @ [c]"]
    have "submitted_from (acc @ [c]) (ev2 @ rest) = submitted_from ((acc @ [c]) @ cs) rest" .
    with ev show ?thesis by simp
  qed
qed

lemma type_chars_raised:
  "type_chars D w s = (Inl e, s1, ev)
     \<Longrightarrow> Returned KeyPressEnter \<notin> set ev
         \<and> (\<exists>pre c. ev = pre @ [Raised (KeyType c) e] \<and> c \<in> set w
               \<and> (\<forall>x\<in>set pre. \<forall>k e'. x \<noteq> Raised k e'))"
proof (induction w arbitrary: s ev)
  case Nil
  then show ?case by simp
next
  case (Cons c cs)
  show ?case
  proof (cases rule: perform_cases [of "KeyType c" "keyboard_type D c" s])
    case (raised e' s')
    with Cons.prems have "ev = [] @ [Raised (KeyType c) e]" by auto
    then show ?thesis by auto
  next
    case (returned v s')
    obtain r s2 ev2 where tc: "type_chars D cs s' = (r, s2, ev2)"
      by (cases "type_chars D cs s'") auto
    with Cons.prems returned have r: "r = Inl e" "s2 = s1"
      and ev: "ev = Returned (KeyType c) # Sleep BetweenChars # ev2"
      by auto
    from tc r have "type_chars D cs s' = (Inl e, s1, ev2)" by simp
    from Cons.IH [OF this]
    obtain pre k where a: "Returned KeyPressEnter \<notin> set ev2" and b: "ev2 = pre @ [Raised (KeyType k) e]"
        and c: "k \<in> set cs" and d: "\<forall>x\<in>set pre. \<forall>k e'. x \<noteq> Raised k e'"
      by auto
    have "ev = (Returned (KeyType c) # Sleep BetweenChars # pre) @ [Raised (KeyType k) e]"
      using ev b by simp
    moreover have "\<forall>x\<in>set (Returned (KeyType c) # Sleep BetweenChars # pre). \<forall>k e'. x \<noteq> Raised k e'"
      using d by simp
    moreover have "Returned KeyPressEnter \<notin> set ev" using a ev by simp
    moreover have "k \<in> set (c # cs)" using c by simp
    ultimately show ?thesis by blast
  qed
qed

lemma type_chars_no_raise:
  "type_chars D w s = (Inr u, s1, ev)
     \<Longrightarrow> Returned KeyPressEnter \<notin> set ev \<and> (\<forall>x\<in>set ev. \<forall>k e'. x \<noteq> Raised k e')"
proof (induction w arbitrary: s ev)
  case Nil
  then show ?case by simp
next
  case (Cons c cs)
  show ?case
  proof (cases rule: perform_cases [of "KeyType c" "keyboard_type D c" s])
    case (raised e' s')
    with Cons.prems show ?thesis by simp
  next
    case (returned v s')
    obtain r s2 ev2 where tc: "type_chars D cs s' = (r, s2, ev2)"
      by (cases "type_chars D cs s'") auto
    with Cons.prems returned have r: "r = Inr u" "s2 = s1"
      and ev: "ev = Returned (KeyType c) # Sleep BetweenChars # ev2"
      by auto
    from tc r have "type_chars D cs s' = (Inr u, s1, ev2)" by simp
    from Cons.IH [OF this] ev show ?thesis by simp
  qed
qed

lemma submit_word_returned:
  assumes "submit_word D w s = (Inr u, s1, ev)"
  shows "submitted_from acc (ev @ rest) = (acc @ w) # submitted_from [] rest"
proof -
  obtain r sa eva where tc: "type_chars D w s = (r, sa, eva)"
    by (cases "type_chars D w s") auto
  show ?thesis
  proof (cases r)
    case (Inl e)
    with assms tc show ?thesis by (simp add: submit_word_def)
  next
    case (Inr u')
    show ?thesis
    proof (cases rule: perform_cases [of KeyPressEnter "keyboard_press_enter D" sa])
      case (raised e s')
      with assms tc Inr show ?thesis by (simp add: submit_word_def)
    next
      case (returned v s')
      with assms tc Inr
      have ev: "ev = eva @ Sleep BeforeEnter # Returned KeyPressEnter # [Sleep Settle]"
        by (auto simp: submit_word_def)
      from tc Inr have "type_chars D w s = (Inr u', sa, eva)" by simp
      from type_chars_returned [OF this]
      show ?thesis by (simp add: ev)
    qed
  qed
qed

lemma submit_word_raised:
  assumes "submit_word D w s = (Inl e, s1, ev)"
  shows "Returned KeyPressEnter \<notin> set ev
       \<and> (\<exists>pre k. ev = pre @ [Raised k e] \<and> (k = KeyPressEnter \<or> (\<exists>c\<in>set w. k = KeyType c))
             \<and> (\<forall>x\<in>set pre. \<forall>k e'. x \<noteq> Raised k e'))"
proof -
  obtain r sa eva where tc: "type_chars D w s = (r, sa, eva)"
    by (cases "type_chars D w s") auto
  show ?thesis
  proof (cases r)
    case (Inl e')
    with assms tc have "type_chars D w s = (Inl e, s1, ev)"
      by (simp add: submit_word_def)
    from type_chars_raised [OF this] show ?thesis by blast
  next
    case (Inr u')
    with tc have ok: "type_chars D w s = (Inr u', sa, eva)" by simp
    show ?thesis
    proof (cases rule: perform_cases [of KeyPressEnter "keyboard_press_enter D" sa])
      case (raised e' s')
      with assms tc Inr
      have ev: "ev = (eva @ [Sleep BeforeEnter]) @ [Raised KeyPressEnter e]"
        by (auto simp: submit_word_def)
      have a: "\<forall>x\<in>set (eva @ [Sleep BeforeEnter]). \<forall>k e'. x \<noteq> Raised k e'"
        using type_chars_no_raise [OF ok] by simp
      have b: "Returned KeyPressEnter \<notin> set eva"
        using type_chars_no_raise [OF ok] by simp
      have "Returned KeyPressEnter \<notin> set ev"
        using ev b by simp
      with ev a show ?thesis by blast
    next
      case (returned v s')
      with assms tc Inr show ?thesis by (simp add: submit_word_def)
    qed
  qed
qed

lemma read_rank_events:
  "read_rank D s = (r, s1, ev) \<Longrightarrow> \<forall>x\<in>set ev. \<not> keystroke x"
  by (cases rule: perform_cases [of QueryRankName "query_rank_name D" s];
      cases rule: perform_cases [of RankInnerText "rank_inner_text D" "fst (snd (perform QueryRankName (query_rank_name D) s))"])
     (auto simp: read_rank_def split: if_splits)

lemma check_stop_events:
  assumes "check_stop D s = (r, s2, ev)"
  shows "\<forall>x\<in>set ev. \<not> keystroke x"
proof -
  obtain rr s1 ev1 where rd: "read_rank D s = (rr, s1, ev1)"
    by (cases "read_rank D s") auto
  note k1 = read_rank_events [OF rd]
  show ?thesis
  proof (cases rr)
    case (Inl e)
    with assms rd k1 show ?thesis by (auto simp: check_stop_def)
  next
    case (Inr current_rank)
    show ?thesis
    proof (cases "current_rank = Some ''Genius''")
      case True
      with assms rd Inr k1 show ?thesis by (auto simp: check_stop_def)
    next
      case False
      show ?thesis
        by (cases rule: perform_cases [of QueenBeeVisible "queen_bee_is_visible D" s1])
           (use assms rd Inr False k1 in \<open>auto simp: check_stop_def\<close>)
    qed
  qed
qed

lemma check_stop_genius:
  assumes "fst (read_rank D s) = Inr (Some ''Genius'')"
  shows "check_stop D s =
           (Some GeniusReached, fst (snd (read_rank D s)),
            snd (snd (read_rank D s)) @ [Sleep Grace])"
  using assms by (cases "read_rank D s") (simp add: check_stop_def)

lemma check_stop_queen_bee:
  assumes "fst (read_rank D s) = Inr current_rank" "current_rank \<noteq> Some ''Genius''"
    and "fst (queen_bee_is_visible D (fst (snd (read_rank D s)))) = Inr True"
  shows "check_stop D s =
           (Some QueenBeeReached,
            snd (queen_bee_is_visible D (fst (snd (read_rank D s)))),
            snd (snd (read_rank D s)) @ [Returned QueenBeeVisible])"
  using assms
  by (cases "read_rank D s"; cases "queen_bee_is_visible D (fst (snd (read_rank D s)))")
     (simp add: check_stop_def perform_def)

lemma check_stop_swallows:
  assumes "isl (fst (read_rank D s))
           \<or> (fst (read_rank D s) \<noteq> Inr (Some ''Genius'')
               \<and> fst (queen_bee_is_visible D (fst (snd (read_rank D s)))) \<noteq> Inr True)"
  shows "fst (check_stop D s) = None"
proof (cases "read_rank D s")
  case (fields rr s1 ev1)
  show ?thesis
  proof (cases rr)
    case (Inl e)
    with fields show ?thesis by (simp add: check_stop_def)
  next
    case (Inr current_rank)
    with assms fields have a: "current_rank \<noteq> Some ''Genius''"
      and b: "fst (queen_bee_is_visible D s1) \<noteq> Inr True"
      by auto
    obtain v s2 where q: "queen_bee_is_visible D s1 = (v, s2)"
      by (cases "queen_bee_is_visible D s1") auto
    with b have "v \<noteq> Inr True" by simp
    with fields Inr a q show ?thesis
      by (cases v) (simp_all add: check_stop_def perform_def)
  qed
qed

lemma play_words_append:
  "play_words D before s = (Exhausted, s1, ev1)
     \<Longrightarrow> play_words D (before @ ws) s =
           (case play_words D ws s1 of (x, s3, ev3) \<Rightarrow> (x, s3, ev1 @ ev3))"
proof (induction before arbitrary: s ev1)
  case Nil
  then show ?case by auto
next
  case (Cons w before)
  obtain r sa eva where sw: "submit_word D w s = (r, sa, eva)"
    by (cases "submit_word D w s") auto
  obtain c sb evb where cs: "check_stop D sa = (c, sb, evb)"
    by (cases "check_stop D sa") auto
  obtain x sc evc where pw: "play_words D before sb = (x, sc, evc)"
    by (cases "play_words D before sb") auto
  from Cons.prems sw cs pw have r: "\<exists>u. r = Inr u" and c: "c = None"
    and x: "x = Exhausted" "sc = s1" and ev1: "ev1 = eva @ evb @ Sleep BetweenWords # evc"
    by (auto split: sum.splits option.splits)
  from pw x have "play_words D before sb = (Exhausted, s1, evc)" by simp
  from Cons.IH [OF this]
  have "play_words D (before @ ws) sb =
          (case play_words D ws s1 of (x, s3, ev3) \<Rightarrow> (x, s3, evc @ ev3))" .
  with sw cs r c ev1 show ?case
    by (auto split: prod.splits)
qed

lemma play_words_exhausted_submitted:
  "play_words D ws s = (Exhausted, s1, ev)
     \<Longrightarrow> submitted_from [] (ev @ rest) = ws @ submitted_from [] rest"
proof (induction ws arbitrary: s ev)
  case Nil
  then show ?case by auto
next
  case (Cons w ws)
  obtain r sa eva where sw: "submit_word D w s = (r, sa, eva)"
    by (cases "submit_word D w s") auto
  obtain c sb evb where cs: "check_stop D sa = (c, sb, evb)"
    by (cases "check_stop D sa") auto
  obtain x sc evc where pw: "play_words D ws sb = (x, sc, evc)"
    by (cases "play_words D ws sb") auto
  from Cons.prems sw cs pw obtain u where r: "r = Inr u" and c: "c = None"
    and x: "x = Exhausted" "sc = s1" and ev: "ev = eva @ evb @ Sleep BetweenWords # evc"
    by (auto split: sum.splits option.splits)
  from pw x have "play_words D ws sb = (Exhausted, s1, evc)" by simp
  from Cons.IH [OF this]
  have ih: "submitted_from [] (evc @ rest) = ws @ submitted_from [] rest" .
  from sw r have "submit_word D w s = (Inr u, sa, eva)" by simp
  from submit_word_returned [OF this, of "[]" "evb @ Sleep BetweenWords # evc @ rest"]
  have "submitted_from [] (ev @ rest)
          = w # submitted_from [] (evb @ Sleep BetweenWords # evc @ rest)"
    by (simp add: ev)
  also have "submitted_from [] (evb @ Sleep BetweenWords # evc @ rest)
               = submitted_from [] (Sleep BetweenWords # evc @ rest)"
    by (rule submitted_from_skip) (rule check_stop_events [OF cs])
  finally show ?case using ih by simp
qed

lemma submitted_from_skip_tail:
  "\<forall>x\<in>set rest. \<not> keystroke x \<Longrightarrow> submitted_from acc (evs @ rest) = submitted_from acc evs"
proof (induction acc evs rule: submitted_from.induct)
  case (1 acc)
  then show ?case using submitted_from_skip [of rest acc "[]"] by simp
qed auto

lemma perform_events:
  assumes "perform c operation s = (r, s1, ev)"
  shows "ev = [Returned c] \<or> (\<exists>e. ev = [Raised c e])"
  using assms by (cases rule: perform_cases [of c operation s]) auto

lemma play_button_events:
  assumes "play_button D s = (s1, ev)"
  shows "\<forall>x\<in>set ev. \<not> keystroke x"
proof -
  obtain r1 sa eva where p1: "perform WaitForPlay (wait_for_play_button D) s = (r1, sa, eva)"
    by (cases "perform WaitForPlay (wait_for_play_button D) s") auto
  obtain r2 sb evb where p2: "perform ClickPlay (click_play_button D) sa = (r2, sb, evb)"
    by (cases "perform ClickPlay (click_play_button D) sa") auto
  have ka: "\<forall>x\<in>set eva. \<not> keystroke x"
    using perform_events [OF p1] by auto
  have kb: "\<forall>x\<in>set evb. \<not> keystroke x"
    using perform_events [OF p2] by auto
  from assms p1 p2 have "ev = eva \<or> ev = eva @ evb"
    by (cases r1) (auto simp: play_button_def)
  with ka kb show ?thesis by auto
qed

lemma open_game_events:
  assumes "open_game D s = (r, s1, ev)"
  shows "\<forall>x\<in>set ev. \<not> keystroke x"
proof -
  obtain r1 sa eva where p1: "perform Goto (goto D) s = (r1, sa, eva)"
    by (cases "perform Goto (goto D) s") auto
  obtain sb evb where p2: "play_button D sa = (sb, evb)"
    by (cases "play_button D sa") auto
  have ka: "\<forall>x\<in>set eva. \<not> keystroke x"
    using perform_events [OF p1] by auto
  note kb = play_button_events [OF p2]
  from assms p1 p2 have "ev = eva \<or> ev = eva @ evb @ [Sleep AfterLoad]"
    by (cases r1) (auto simp: open_game_def)
  with ka kb show ?thesis by auto
qed

lemma close_all_events_of:
  assumes "close_all D s = (r, s1, ev)"
  shows "(\<forall>x\<in>set ev. \<not> keystroke x) \<and> (\<forall>e. LogError e \<notin> set ev)"
proof -
  obtain r1 sa eva where p1: "perform PageClose (page_close D) s = (r1, sa, eva)"
    by (cases "perform PageClose (page_close D) s") auto
  obtain r2 sb evb where p2: "perform ContextClose (context_close D) sa = (r2, sb, evb)"
    by (cases "perform ContextClose (context_close D) sa") auto
  obtain r3 sc evc where p3: "perform BrowserClose (browser_close D) sb = (r3, sc, evc)"
    by (cases "perform BrowserClose (browser_close D) sb") auto
  have ka: "(\<forall>x\<in>set eva. \<not> keystroke x) \<and> (\<forall>e. LogError e \<notin> set eva)"
    using perform_events [OF p1] by auto
  have kb: "(\<forall>x\<in>set evb. \<not> keystroke x) \<and> (\<forall>e. LogError e \<notin> set evb)"
    using perform_events [OF p2] by auto
  have kc: "(\<forall>x\<in>set evc. \<not> keystroke x) \<and> (\<forall>e. LogError e \<notin> set evc)"
    using perform_events [OF p3] by auto
  from assms p1 p2 p3 have "ev = eva \<or> ev = eva @ evb \<or> ev = eva @ evb @ evc"
    by (cases r1; cases r2; cases r3) (auto simp: close_all_def)
  with ka kb kc show ?thesis by auto
qed

lemma close_all_events: "\<forall>x\<in>set (snd (snd (close_all D s))). \<not> keystroke x"
  using close_all_events_of [of D s] by (cases "close_all D s") auto

lemma play_words_stopped_submitted:
  "play_words D ws s = (Stopped reason, s1, ev)
     \<Longrightarrow> \<exists>k. 0 < k \<and> k \<le> length ws \<and> submitted_from [] ev = take k ws"
proof (induction ws arbitrary: s ev)
  case Nil
  then show ?case by simp
next
  case (Cons w ws)
  obtain r sa eva where sw: "submit_word D w s = (r, sa, eva)"
    by (cases "submit_word D w s") auto
  obtain c sb evb where cs: "check_stop D sa = (c, sb, evb)"
    by (cases "check_stop D sa") auto
  from Cons.prems sw obtain u where r: "r = Inr u"
    by (cases r) auto
  with sw have ok: "submit_word D w s = (Inr u, sa, eva)" by simp
  note skip = submitted_from_skip [OF check_stop_events [OF cs]]
  show ?case
  proof (cases c)
    case (Some reason')
    with Cons.prems sw cs r have ev: "ev = eva @ evb" by auto
    have "submitted_from [] (eva @ evb @ []) = w # submitted_from [] (evb @ [])"
      using submit_word_returned [OF ok, of "[]" "evb @ []"] by simp
    also have "submitted_from [] (evb @ []) = []"
      using skip [of "[]" "[]"] by simp
    finally have "submitted_from [] ev = take 1 (w # ws)"
      by (simp add: ev)
    then show ?thesis
      by (intro exI [of _ 1]) simp
  next
    case None
    obtain x sc evc where pw: "play_words D ws sb = (x, sc, evc)"
      by (cases "play_words D ws sb") auto
    with Cons.prems sw cs r None have x: "x = Stopped reason" "sc = s1"
      and ev: "ev = eva @ evb @ Sleep BetweenWords # evc"
      by auto
    from pw x have "play_words D ws sb = (Stopped reason, s1, evc)" by simp
    from Cons.IH [OF this] obtain k where k: "0 < k" "k \<le> length ws"
      "submitted_from [] evc = take k ws" by blast
    have "submitted_from [] ev = w # submitted_from [] (evb @ Sleep BetweenWords # evc)"
      using submit_word_returned [OF ok, of "[]" "evb @ Sleep BetweenWords # evc"]
      by (simp add: ev)
    also have "submitted_from [] (evb @ Sleep BetweenWords # evc) = submitted_from [] evc"
      using skip [of "[]" "Sleep BetweenWords # evc"] by simp
    finally have "submitted_from [] ev = take (Suc k) (w # ws)"
      using k by simp
    with k show ?thesis
      by (intro exI [of _ "Suc k"]) simp
  qed
qed

text \<open>
  Claim C5, amended: when, after the k-th word has been submitted, the rank label reads
  "Genius" (stripped, compared exactly), or the rank probe ends without an exception on
  some other label or on no label and the text "Queen Bee" is visible, the loop ends
  there. No later word is typed or submitted: the run is the run on the first k words
  alone, and the events after the k-th submission hold no keystroke. On "Genius" the
  loop waits the grace delay before it ends.
\<close>

theorem stop_condition_ends_the_loop:
  assumes "play_words D before s = (Exhausted, s1, ev1)"
    and "submit_word D w s1 = (Inr (), s2, ev2)"
    and "fst (read_rank D s2) = Inr (Some ''Genius'')
         \<or> (\<not> isl (fst (read_rank D s2))
             \<and> fst (queen_bee_is_visible D (fst (snd (read_rank D s2)))) = Inr True)"
  shows "\<exists>reason s3 ev3.
           check_stop D s2 = (Some reason, s3, ev3)
         \<and> play_words D (before @ w # rest) s = (Stopped reason, s3, ev1 @ ev2 @ ev3)
         \<and> play_words D (before @ [w]) s = (Stopped reason, s3, ev1 @ ev2 @ ev3)
         \<and> (\<forall>x\<in>set ev3. \<not> keystroke x)
         \<and> submitted (ev1 @ ev2 @ ev3) = before @ [w]
         \<and> (fst (read_rank D s2) = Inr (Some ''Genius'')
              \<longrightarrow> reason = GeniusReached \<and> ev3 = snd (snd (read_rank D s2)) @ [Sleep Grace])"
proof -
  obtain reason s3 ev3 where cs: "check_stop D s2 = (Some reason, s3, ev3)"
    and grace: "fst (read_rank D s2) = Inr (Some ''Genius'')
              \<longrightarrow> reason = GeniusReached \<and> ev3 = snd (snd (read_rank D s2)) @ [Sleep Grace]"
  proof (cases "fst (read_rank D s2) = Inr (Some ''Genius'')")
    case True
    show ?thesis
      by (rule that [OF check_stop_genius [OF True]]) simp
  next
    case False
    with assms(3) obtain current_rank where r1: "fst (read_rank D s2) = Inr current_rank"
      and r3: "fst (queen_bee_is_visible D (fst (snd (read_rank D s2)))) = Inr True"
      by (cases "fst (read_rank D s2)") auto
    from r1 False have r2: "current_rank \<noteq> Some ''Genius''" by auto
    have "check_stop D s2 =
           (Some QueenBeeReached,
            snd (queen_bee_is_visible D (fst (snd (read_rank D s2)))),
            snd (snd (read_rank D s2)) @ [Returned QueenBeeVisible])"
      by (rule check_stop_queen_bee [OF r1 r2 r3])
    then show ?thesis
      by (rule that) (simp add: False)
  qed
  have one: "play_words D (w # ws) s1 = (Stopped reason, s3, ev2 @ ev3)" for ws
    using assms(2) cs by simp
  have a: "play_words D (before @ w # rest) s = (Stopped reason, s3, ev1 @ ev2 @ ev3)"
    using play_words_append [OF assms(1), of "w # rest"] one [of rest] by simp
  have b: "play_words D (before @ [w]) s = (Stopped reason, s3, ev1 @ ev2 @ ev3)"
    using play_words_append [OF assms(1), of "[w]"] one [of "[]"] by simp
  have k: "\<forall>x\<in>set ev3. \<not> keystroke x"
    by (rule check_stop_events [OF cs])
  have "submitted_from [] (ev1 @ ev2 @ ev3) = before @ submitted_from [] (ev2 @ ev3)"
    by (rule play_words_exhausted_submitted [OF assms(1)])
  also have "submitted_from [] (ev2 @ ev3) = w # submitted_from [] ev3"
    using submit_word_returned [OF assms(2), of "[]" ev3] by simp
  also have "submitted_from [] ev3 = []"
    using submitted_from_skip [OF k, of "[]" "[]"] by simp
  finally have sub: "submitted (ev1 @ ev2 @ ev3) = before @ [w]"
    by (simp add: submitted_def)
  show ?thesis
    by (intro exI conjI) (rule cs, rule a, rule b, rule k, rule sub, rule grace)
qed

lemmas play_defs = submit_word_def check_stop_def read_rank_def perform_def strip_def
  py_isspace_def

text \<open>
  Claim C5, as worded, fails: with "Queen Bee" on the page after the first word, a rank
  probe that raises ends the \<^verbatim>\<open>try\<close> block before the visibility probe is reached, and
  the second word is typed and submitted.
\<close>

theorem queen_bee_missed_when_rank_probe_raises:
  "fst (queen_bee_is_visible queen_bee_behind_broken_rank 1) = Inr True
   \<and> fst (submit_word queen_bee_behind_broken_rank ''then'' 0) = Inr ()
   \<and> fst (snd (submit_word queen_bee_behind_broken_rank ''then'' 0)) = 1
   \<and> fst (play_words queen_bee_behind_broken_rank [''then'', ''tent''] 0) = Exhausted
   \<and> submitted (snd (snd (play_words queen_bee_behind_broken_rank [''then'', ''tent''] 0)))
       = [''then'', ''tent'']"
  by (simp add: play_defs queen_bee_behind_broken_rank_def genius_after_three_def submitted_def)

lemma genius_prefix:
  "\<exists>ev1. play_words genius_after_three [''then'', ''tent''] 0 = (Exhausted, 2, ev1)"
  by (simp add: play_defs genius_after_three_def)

lemma genius_third:
  "\<exists>ev2. submit_word genius_after_three ''teen'' 2 = (Inr (), 3, ev2)"
  by (simp add: play_defs genius_after_three_def)

lemma genius_read: "fst (read_rank genius_after_three 3) = Inr (Some ''Genius'')"
  by (simp add: play_defs genius_after_three_def)

lemma queen_prefix:
  "\<exists>ev1. play_words queen_bee_after_two [''then''] 0 = (Exhausted, 1, ev1)"
  by (simp add: play_defs queen_bee_after_two_def genius_after_three_def)

lemma queen_second:
  "\<exists>ev2. submit_word queen_bee_after_two ''tent'' 1 = (Inr (), 2, ev2)"
  by (simp add: play_defs queen_bee_after_two_def genius_after_three_def)

lemma queen_read:
  "\<not> isl (fst (read_rank queen_bee_after_two 2))
   \<and> fst (queen_bee_is_visible queen_bee_after_two (fst (snd (read_rank queen_bee_after_two 2))))
       = Inr True"
  by (simp add: play_defs queen_bee_after_two_def genius_after_three_def)

text \<open>
  Claim C5, amended, on a page that shows "Genius" after the third of five words, and
  on a page that shows "Queen Bee" after the second.
\<close>

theorem stop_condition_ends_the_loop_witness:
  "(\<exists>s3 evs. play_words genius_after_three five_words 0 = (Stopped GeniusReached, s3, evs)
       \<and> play_words genius_after_three [''then'', ''tent'', ''teen''] 0
           = (Stopped GeniusReached, s3, evs)
       \<and> submitted evs = [''then'', ''tent'', ''teen''])
   \<and> (\<exists>reason s3 evs. play_words queen_bee_after_two five_words 0 = (Stopped reason, s3, evs)
       \<and> play_words queen_bee_after_two [''then'', ''tent''] 0 = (Stopped reason, s3, evs)
       \<and> submitted evs = [''then'', ''tent''])"
proof -
  obtain ev1 where a: "play_words genius_after_three [''then'', ''tent''] 0 = (Exhausted, 2, ev1)"
    using genius_prefix by blast
  obtain ev2 where b: "submit_word genius_after_three ''teen'' 2 = (Inr (), 3, ev2)"
    using genius_third by blast
  have c: "fst (read_rank genius_after_three 3) = Inr (Some ''Genius'')
         \<or> (\<not> isl (fst (read_rank genius_after_three 3))
             \<and> fst (queen_bee_is_visible genius_after_three
                       (fst (snd (read_rank genius_after_three 3)))) = Inr True)"
    using genius_read by simp
  from stop_condition_ends_the_loop [OF a b c, of "[''teeth'', ''tenth'']"] genius_read
  have 1: "\<exists>s3 evs. play_words genius_after_three five_words 0 = (Stopped GeniusReached, s3, evs)
       \<and> play_words genius_after_three [''then'', ''tent'', ''teen''] 0
           = (Stopped GeniusReached, s3, evs)
       \<and> submitted evs = [''then'', ''tent'', ''teen'']"
    by (auto simp: five_words_def)
  obtain ev1' where a': "play_words queen_bee_after_two [''then''] 0 = (Exhausted, 1, ev1')"
    using queen_prefix by blast
  obtain ev2' where b': "submit_word queen_bee_after_two ''tent'' 1 = (Inr (), 2, ev2')"
    using queen_second by blast
  have c': "fst (read_rank queen_bee_after_two 2) = Inr (Some ''Genius'')
         \<or> (\<not> isl (fst (read_rank queen_bee_after_two 2))
             \<and> fst (queen_bee_is_visible queen_bee_after_two
                       (fst (snd (read_rank queen_bee_after_two 2)))) = Inr True)"
    using queen_read by simp
  from stop_condition_ends_the_loop [OF a' b' c', of "[''teen'', ''teeth'', ''tenth'']"]
  have 2: "\<exists>reason s3 evs. play_words queen_bee_after_two five_words 0 = (Stopped reason, s3, evs)
       \<and> play_words queen_bee_after_two [''then'', ''tent''] 0 = (Stopped reason, s3, evs)
       \<and> submitted evs = [''then'', ''tent'']"
    by (auto simp: five_words_def)
  from 1 2 show ?thesis by (rule conjI)
qed

lemma run_trace:
  assumes "open_game D s = (Inr u, s1, ev1)" and "play_words D words s1 = (x, s2, ev2)"
  shows "snd (snd (run_browser_automation D words s)) =
           ev1 @ ev2 @ (case x of Aborted e \<Rightarrow> [LogError e] | _ \<Rightarrow> [Sleep AfterFinish])
             @ snd (snd (close_all D s2))"
  using assms
  by (cases x; cases "close_all D s2"; cases "fst (close_all D s2)")
     (auto simp: run_browser_automation_def guarded_play_def)

lemma run_submitted:
  assumes "open_game D s = (Inr u, s1, ev1)" and "play_words D words s1 = (x, s2, ev2)"
  shows "submitted (snd (snd (run_browser_automation D words s))) = submitted_from [] ev2"
proof -
  let ?end = "(case x of Aborted e \<Rightarrow> [LogError e] | _ \<Rightarrow> [Sleep AfterFinish])
                @ snd (snd (close_all D s2))"
  have k: "\<forall>e\<in>set ?end. \<not> keystroke e"
    using close_all_events [of D s2] by (cases x) auto
  have "submitted (snd (snd (run_browser_automation D words s)))
          = submitted_from [] (ev1 @ (ev2 @ ?end))"
    using run_trace [OF assms] by (simp add: submitted_def)
  also have "\<dots> = submitted_from [] (ev2 @ ?end)"
    by (rule submitted_from_skip) (rule open_game_events [OF assms(1)])
  also have "\<dots> = submitted_from [] ev2"
    by (rule submitted_from_skip_tail [OF k])
  finally show ?thesis .
qed

lemma run_returns_none: "fst (run_browser_automation D words s) \<noteq> Inr (Some outcome)"
  by (auto simp: run_browser_automation_def split: prod.splits sum.splits)

text \<open>
  Claim C6, as worded, fails: where the page shows "Genius" after the third of five
  words, the call returns \<^verbatim>\<open>None\<close>, not a record that says so.
\<close>

theorem genius_run_returns_no_outcome:
  "fst (run_browser_automation genius_after_three five_words 0) = Inr None
   \<and> fst (run_browser_automation genius_after_three five_words 0)
       \<noteq> Inr (Some \<lparr>submittedCount = 3, stoppedEarly = True, reachedRank = Some ''Genius''\<rparr>)"
  by (simp add: run_browser_automation_def guarded_play_def open_game_def play_button_def
      close_all_def play_defs genius_after_three_def five_words_def)

text \<open>
  Claim C6, amended: \<^verbatim>\<open>run_browser_automation\<close> never returns an outcome record. What
  a run did shows in its trace only: when the loop ends at a \<^verbatim>\<open>break\<close>, the run has
  submitted the first k words of the list, for some k from 1 to the length of the list;
  when the loop exhausts the list, the run has submitted every word.
\<close>

theorem run_returns_nothing_trace_tells:
  "fst (run_browser_automation D words s) \<noteq> Inr (Some outcome)
   \<and> (open_game D s = (Inr (), s1, ev1) \<and> play_words D words s1 = (Stopped reason, s2, ev2)
        \<longrightarrow> (\<exists>k. 0 < k \<and> k \<le> length words
                \<and> submitted (snd (snd (run_browser_automation D words s))) = take k words))
   \<and> (open_game D s = (Inr (), s1, ev1) \<and> play_words D words s1 = (Exhausted, s2, ev2)
        \<longrightarrow> submitted (snd (snd (run_browser_automation D words s))) = words)"
proof -
  have A: "fst (run_browser_automation D words s) \<noteq> Inr (Some outcome)"
    by (rule run_returns_none)
  have B: "open_game D s = (Inr (), s1, ev1) \<and> play_words D words s1 = (Stopped reason, s2, ev2)
        \<longrightarrow> (\<exists>k. 0 < k \<and> k \<le> length words
                \<and> submitted (snd (snd (run_browser_automation D words s))) = take k words)"
  proof
    assume h: "open_game D s = (Inr (), s1, ev1)
               \<and> play_words D words s1 = (Stopped reason, s2, ev2)"
    then have og: "open_game D s = (Inr (), s1, ev1)"
      and pw: "play_words D words s1 = (Stopped reason, s2, ev2)" by simp_all
    from play_words_stopped_submitted [OF pw] run_submitted [OF og pw]
    show "\<exists>k. 0 < k \<and> k \<le> length words
            \<and> submitted (snd (snd (run_browser_automation D words s))) = take k words"
      by simp
  qed
  have C: "open_game D s = (Inr (), s1, ev1) \<and> play_words D words s1 = (Exhausted, s2, ev2)
        \<longrightarrow> submitted (snd (snd (run_browser_automation D words s))) = words"
  proof
    assume h: "open_game D s = (Inr (), s1, ev1) \<and> play_words D words s1 = (Exhausted, s2, ev2)"
    then have og: "open_game D s = (Inr (), s1, ev1)"
      and pw: "play_words D words s1 = (Exhausted, s2, ev2)" by simp_all
    from play_words_exhausted_submitted [OF pw, of "[]"] run_submitted [OF og pw]
    show "submitted (snd (snd (run_browser_automation D words s))) = words"
      by simp
  qed
  from A B C show ?thesis by (intro conjI)
qed

lemma genius_open:
  "open_game genius_after_three 0 =
     (Inr (), 0, [Returned Goto, Returned WaitForPlay, Returned ClickPlay, Sleep AfterLoad])"
  by (simp add: open_game_def play_button_def perform_def genius_after_three_def)

lemma genius_loop:
  "\<exists>ev2. play_words genius_after_three five_words 0 = (Stopped GeniusReached, 3, ev2)"
  by (simp add: play_defs genius_after_three_def five_words_def)

lemma broken_open:
  "open_game probes_broken 0 =
     (Inr (), 0, [Returned Goto, Returned WaitForPlay, Returned ClickPlay, Sleep AfterLoad])"
  by (simp add: open_game_def play_button_def perform_def probes_broken_def
      genius_after_three_def)

lemma broken_loop:
  "\<exists>ev2. play_words probes_broken five_words 0 = (Exhausted, 5, ev2)"
  by (simp add: play_defs probes_broken_def genius_after_three_def five_words_def)

text \<open>
  Claim C6, amended, on the page that shows "Genius" after the third word and on the
  page whose probes raise.
\<close>

theorem run_returns_nothing_trace_tells_witness:
  "fst (play_words genius_after_three five_words 0) = Stopped GeniusReached
   \<and> (\<exists>k. 0 < k \<and> k \<le> length five_words
         \<and> submitted (snd (snd (run_browser_automation genius_after_three five_words 0)))
             = take k five_words)
   \<and> fst (play_words probes_broken five_words 0) = Exhausted
   \<and> submitted (snd (snd (run_browser_automation probes_broken five_words 0))) = five_words"
proof -
  obtain ev2 where a: "play_words genius_after_three five_words 0 = (Stopped GeniusReached, 3, ev2)"
    using genius_loop by blast
  obtain ev2' where b: "play_words probes_broken five_words 0 = (Exhausted, 5, ev2')"
    using broken_loop by blast
  from run_returns_nothing_trace_tells [of genius_after_three five_words 0 _ 0 _ GeniusReached 3 ev2]
    genius_open a
  have 1: "\<exists>k. 0 < k \<and> k \<le> length five_words
         \<and> submitted (snd (snd (run_browser_automation genius_after_three five_words 0)))
             = take k five_words"
    by blast
  from run_returns_nothing_trace_tells [of probes_broken five_words 0 _ 0 _ _ 5 ev2']
    broken_open b
  have 2: "submitted (snd (snd (run_browser_automation probes_broken five_words 0))) = five_words"
    by blast
  from a b 1 2 show ?thesis by simp
qed

lemma type_chars_succeeds:
  assumes "\<forall>c s. fst (keyboard_type D c s) = Inr ()"
  shows "\<exists>s1 ev. type_chars D w s = (Inr (), s1, ev)"
proof (induction w arbitrary: s)
  case Nil
  then show ?case by simp
next
  case (Cons c cs)
  obtain s' where k: "keyboard_type D c s = (Inr (), s')"
    using assms by (cases "keyboard_type D c s") (metis fst_conv)
  from Cons [of s'] obtain s1 ev where "type_chars D cs s' = (Inr (), s1, ev)" by blast
  with k show ?case by (simp add: perform_def)
qed

lemma submit_word_succeeds:
  assumes "\<forall>c s. fst (keyboard_type D c s) = Inr ()"
    and "\<forall>s. fst (keyboard_press_enter D s) = Inr ()"
  shows "\<exists>s1 ev. submit_word D w s = (Inr (), s1, ev)"
proof -
  from type_chars_succeeds [OF assms(1)]
  obtain sa eva where t: "type_chars D w s = (Inr (), sa, eva)" by blast
  obtain s' where k: "keyboard_press_enter D sa = (Inr (), s')"
    using assms(2) by (cases "keyboard_press_enter D sa") (metis fst_conv)
  from t k show ?thesis by (simp add: submit_word_def perform_def)
qed

text \<open>
  Claim C7: on a page where every keystroke succeeds, where the rank read never yields a
  label (it raises, or finds no element) and where the visibility probe always raises,
  the loop swallows each failure, submits every word of the list in order, and ends
  because the list is exhausted: not at a \<^verbatim>\<open>break\<close>, and not with an exception.
\<close>

theorem failing_probes_never_stop:
  assumes "\<forall>c s. fst (keyboard_type D c s) = Inr ()"
    and "\<forall>s. fst (keyboard_press_enter D s) = Inr ()"
    and "\<forall>s label. fst (read_rank D s) \<noteq> Inr (Some label)"
    and "\<forall>s. isl (fst (queen_bee_is_visible D s))"
  shows "\<exists>s' evs. play_words D words s = (Exhausted, s', evs) \<and> submitted evs = words"
proof -
  have "\<exists>s' evs. play_words D words s = (Exhausted, s', evs)"
  proof (induction words arbitrary: s)
    case Nil
    then show ?case by simp
  next
    case (Cons w ws)
    from submit_word_succeeds [OF assms(1,2)]
    obtain sa eva where sw: "submit_word D w s = (Inr (), sa, eva)" by blast
    have "isl (fst (read_rank D sa))
           \<or> (fst (read_rank D sa) \<noteq> Inr (Some ''Genius'')
               \<and> fst (queen_bee_is_visible D (fst (snd (read_rank D sa)))) \<noteq> Inr True)"
      using assms(3,4) by (metis isl_def sum.distinct(1))
    from check_stop_swallows [OF this]
    obtain sb evb where cs: "check_stop D sa = (None, sb, evb)"
      by (cases "check_stop D sa") auto
    from Cons [of sb] obtain sc evc where "play_words D ws sb = (Exhausted, sc, evc)" by blast
    with sw cs show ?case by simp
  qed
  then obtain s' evs where pw: "play_words D words s = (Exhausted, s', evs)" by blast
  from play_words_exhausted_submitted [OF pw, of "[]"]
  have "submitted evs = words" by (simp add: submitted_def)
  with pw show ?thesis by blast
qed

lemma probes_broken_fail:
  "(\<forall>c s. fst (keyboard_type probes_broken c s) = Inr ())
   \<and> (\<forall>s. fst (keyboard_press_enter probes_broken s) = Inr ())
   \<and> (\<forall>s label. fst (read_rank probes_broken s) \<noteq> Inr (Some label))
   \<and> (\<forall>s. isl (fst (queen_bee_is_visible probes_broken s)))"
  by (simp add: probes_broken_def genius_after_three_def read_rank_def perform_def)

text \<open>Claim C7 on the page \<open>probes_broken\<close> and five words.\<close>

theorem failing_probes_never_stop_witness:
  "\<exists>s' evs. play_words probes_broken five_words 0 = (Exhausted, s', evs)
      \<and> submitted evs = five_words"
  using failing_probes_never_stop [of probes_broken five_words 0] probes_broken_fail
  by blast

text \<open>
  Claim C8, as worded, fails: the exception of a keystroke does not reach the caller.
  Here the keyboard fails at the first character of the second word; the handler of
  line 165 prints the exception, the \<^verbatim>\<open>finally\<close> block closes the page, and the call
  returns \<^verbatim>\<open>None\<close>.
\<close>

theorem keystroke_failure_stays_inside:
  "fst (run_browser_automation keyboard_fails_after_one five_words 0) = Inr None
   \<and> snd (snd (run_browser_automation keyboard_fails_after_one [''then'', ''tent''] 0)) =
       [Returned Goto, Returned WaitForPlay, Returned ClickPlay, Sleep AfterLoad,
        Returned (KeyType CHR ''t''), Sleep BetweenChars,
        Returned (KeyType CHR ''h''), Sleep BetweenChars,
        Returned (KeyType CHR ''e''), Sleep BetweenChars,
        Returned (KeyType CHR ''n''), Sleep BetweenChars,
        Sleep BeforeEnter, Returned KeyPressEnter, Sleep Settle,
        Returned QueryRankName, Returned RankInnerText, Returned QueenBeeVisible,
        Sleep BetweenWords,
        Raised (KeyType CHR ''t'') PlaywrightError, LogError PlaywrightError,
        Returned PageClose, Returned ContextClose, Returned BrowserClose]"
  by (simp add: run_browser_automation_def guarded_play_def open_game_def play_button_def
      close_all_def play_defs keyboard_fails_after_one_def genius_after_three_def
      five_words_def)

text \<open>
  Claim C8, amended: when typing a character or pressing Enter raises, the keystroke is
  not tried again and the rest of the list is abandoned: the failing call is the last
  event of the loop, the only call of that submission that raised, and the words
  submitted by the whole run are those before the failing one. The exception does not
  reach the caller: it is caught and printed inside \<^verbatim>\<open>run_browser_automation\<close>, which
  then closes page, context and browser and returns \<^verbatim>\<open>None\<close> (or raises what one of
  the three \<^verbatim>\<open>close\<close> calls raises).
\<close>

theorem keystroke_failure_is_caught:
  assumes "open_game D s = (Inr (), s1, ev1)"
    and "play_words D before s1 = (Exhausted, s2, ev2)"
    and "submit_word D w s2 = (Inl e, s3, ev3)"
  shows "run_browser_automation D (before @ w # rest) s =
           (case close_all D s3 of
              (Inl e', s4, ev4) \<Rightarrow> (Inl e', s4, ev1 @ ev2 @ ev3 @ LogError e # ev4)
            | (Inr u, s4, ev4) \<Rightarrow> (Inr None, s4, ev1 @ ev2 @ ev3 @ LogError e # ev4))
       \<and> (\<forall>x\<in>set (snd (snd (close_all D s3))). \<not> keystroke x)
       \<and> (\<exists>pre k. ev3 = pre @ [Raised k e]
             \<and> (k = KeyPressEnter \<or> (\<exists>c\<in>set w. k = KeyType c))
             \<and> (\<forall>x\<in>set pre. \<forall>k e'. x \<noteq> Raised k e'))
       \<and> submitted (snd (snd (run_browser_automation D (before @ w # rest) s))) = before"
proof -
  have one: "play_words D (w # rest) s2 = (Aborted e, s3, ev3)"
    using assms(3) by simp
  have loop: "play_words D (before @ w # rest) s1 = (Aborted e, s3, ev2 @ ev3)"
    using play_words_append [OF assms(2), of "w # rest"] one by simp
  have A: "run_browser_automation D (before @ w # rest) s =
           (case close_all D s3 of
              (Inl e', s4, ev4) \<Rightarrow> (Inl e', s4, ev1 @ ev2 @ ev3 @ LogError e # ev4)
            | (Inr u, s4, ev4) \<Rightarrow> (Inr None, s4, ev1 @ ev2 @ ev3 @ LogError e # ev4))"
    using assms(1) loop
    by (simp add: run_browser_automation_def guarded_play_def split: prod.splits sum.splits)
  have B: "\<forall>x\<in>set (snd (snd (close_all D s3))). \<not> keystroke x"
    by (rule close_all_events)
  from submit_word_raised [OF assms(3)]
  have noenter: "Returned KeyPressEnter \<notin> set ev3"
    and C: "\<exists>pre k. ev3 = pre @ [Raised k e]
             \<and> (k = KeyPressEnter \<or> (\<exists>c\<in>set w. k = KeyType c))
             \<and> (\<forall>x\<in>set pre. \<forall>k e'. x \<noteq> Raised k e')"
    by simp_all
  have "submitted (snd (snd (run_browser_automation D (before @ w # rest) s)))
          = submitted_from [] (ev2 @ ev3)"
    by (rule run_submitted [OF assms(1) loop])
  also have "\<dots> = before @ submitted_from [] ev3"
    by (rule play_words_exhausted_submitted [OF assms(2)])
  also have "submitted_from [] ev3 = []"
    by (rule submitted_from_no_enter [OF noenter])
  finally have D: "submitted (snd (snd (run_browser_automation D (before @ w # rest) s))) = before"
    by simp
  from A B C D show ?thesis by (intro conjI)
qed

lemma keyboard_open:
  "open_game keyboard_fails_after_one 0 =
     (Inr (), 0, [Returned Goto, Returned WaitForPlay, Returned ClickPlay, Sleep AfterLoad])"
  by (simp add: open_game_def play_button_def perform_def keyboard_fails_after_one_def
      genius_after_three_def)

lemma keyboard_first:
  "\<exists>ev2. play_words keyboard_fails_after_one [''then''] 0 = (Exhausted, 1, ev2)"
  by (simp add: play_defs keyboard_fails_after_one_def genius_after_three_def)

lemma keyboard_second:
  "submit_word keyboard_fails_after_one ''tent'' 1 =
     (Inl PlaywrightError, 1, [Raised (KeyType CHR ''t'') PlaywrightError])"
  by (simp add: play_defs keyboard_fails_after_one_def genius_after_three_def)

lemma keyboard_close:
  "close_all keyboard_fails_after_one 1 =
     (Inr (), 1, [Returned PageClose, Returned ContextClose, Returned BrowserClose])"
  by (simp add: close_all_def perform_def keyboard_fails_after_one_def genius_after_three_def)

text \<open>Claim C8, amended, on the page \<open>keyboard_fails_after_one\<close> and five words.\<close>

theorem keystroke_failure_is_caught_witness:
  "fst (run_browser_automation keyboard_fails_after_one five_words 0) = Inr None
   \<and> submitted (snd (snd (run_browser_automation keyboard_fails_after_one five_words 0)))
       = [''then'']
   \<and> (\<exists>evs. snd (snd (run_browser_automation keyboard_fails_after_one five_words 0)) =
         evs @ [Raised (KeyType CHR ''t'') PlaywrightError, LogError PlaywrightError,
                Returned PageClose, Returned ContextClose, Returned BrowserClose])"
proof -
  obtain ev2 where a: "play_words keyboard_fails_after_one [''then''] 0 = (Exhausted, 1, ev2)"
    using keyboard_first by blast
  note caught = keystroke_failure_is_caught [OF keyboard_open a keyboard_second,
      of "[''teen'', ''teeth'', ''tenth'']"]
  have words: "[''then''] @ ''tent'' # [''teen'', ''teeth'', ''tenth''] = five_words"
    by (simp add: five_words_def)
  from caught have "run_browser_automation keyboard_fails_after_one five_words 0 =
      (Inr None, 1,
       [Returned Goto, Returned WaitForPlay, Returned ClickPlay, Sleep AfterLoad] @ ev2
         @ [Raised (KeyType CHR ''t'') PlaywrightError]
         @ LogError PlaywrightError
         # [Returned PageClose, Returned ContextClose, Returned BrowserClose])"
    unfolding keyboard_close words by simp
  then have 1: "fst (run_browser_automation keyboard_fails_after_one five_words 0) = Inr None"
    and 3: "\<exists>evs. snd (snd (run_browser_automation keyboard_fails_after_one five_words 0)) =
         evs @ [Raised (KeyType CHR ''t'') PlaywrightError, LogError PlaywrightError,
                Returned PageClose, Returned ContextClose, Returned BrowserClose]"
    by simp_all
  from caught have 2: "submitted (snd (snd (run_browser_automation keyboard_fails_after_one
                      five_words 0))) = [''then'']"
    unfolding words by blast
  from 1 2 3 show ?thesis by (intro conjI)
qed


end
